theory Spec2Isabelle
  imports Main "HOL-Library.AList" "HOL-Library.Sublist"
begin

section \<open>Browser agent: the CDP debugger manager (src/extension/background.js)\<close>

text \<open>
  The service worker keeps its per-tab and per-extension state in module-level JavaScript
  maps.  They are the fields of one record that every operation takes and returns.
  Calls into \<open>chrome.debugger\<close> are recorded, in order, in the field \<open>issued\<close>; the answer of
  the browser to such a call is given by a parameter of type \<open>browser\<close>, a function of the
  calls issued so far and of the new call, so the browser may answer the same call
  differently at different times.
\<close>

datatype chrome_op =
    DebuggerAttach nat
  | DebuggerDetach nat
  | DebuggerSendCommand nat string

datatype outcome = Resolves string | Throws string

type_synonym browser = "chrome_op list \<Rightarrow> chrome_op \<Rightarrow> outcome"

text \<open>
  The objects the debugger functions return: \<open>{success: true}\<close>,
  \<open>{success: true, already: true}\<close>, \<open>{error: message}\<close>, and the result object of a
  CDP command, which is opaque here.
\<close>

datatype reply =
    Success
  | Already
  | Error string
  | CommandResult string
  | Message string
  | Captured "(string \<times> string) list" "(string \<times> string) list"

record session =
  attached :: bool
  domains :: "string set"

text \<open>
  An extension's error store: \<open>errors\<close> holds (type, message) and \<open>console\<close> holds
  (level, text).  The timestamps and positions that the entries also carry are read from
  the clock and the event and play no part below.
\<close>

record store =
  errors :: "(string \<times> string) list"
  console :: "(string \<times> string) list"
  tabId :: nat

record agent =
  agentEnabled :: bool
  debuggerAttached :: "nat \<rightharpoonup> session"
  networkRequests :: "nat \<rightharpoonup> (string \<times> string \<times> string option) list"
  consoleLogs :: "nat \<rightharpoonup> (string \<times> string) list"
  animations :: "nat \<rightharpoonup> string list"
  extensionErrorStore :: "string \<rightharpoonup> store"
  issued :: "chrome_op list"

definition fresh_agent :: agent where
  "fresh_agent = \<lparr> agentEnabled = True, debuggerAttached = Map.empty, networkRequests = Map.empty,
     consoleLogs = Map.empty, animations = Map.empty, extensionErrorStore = Map.empty,
     issued = [] \<rparr>"

text \<open>The test \<open>debuggerAttached.get(tabId)?.attached\<close>.\<close>

definition is_attached :: "agent \<Rightarrow> nat \<Rightarrow> bool" where
  "is_attached s t = (case debuggerAttached s t of None \<Rightarrow> False | Some d \<Rightarrow> attached d)"

definition attachDebugger :: "browser \<Rightarrow> nat \<Rightarrow> agent \<Rightarrow> reply \<times> agent" where
  "attachDebugger br t s =
     (if is_attached s t then (Already, s)
      else
        (case br (issued s) (DebuggerAttach t) of
           Resolves _ \<Rightarrow>
             (Success,
              s\<lparr> issued := issued s @ [DebuggerAttach t],
                 debuggerAttached := (debuggerAttached s)(t \<mapsto> \<lparr> attached = True, domains = {} \<rparr>) \<rparr>)
         | Throws m \<Rightarrow> (Error m, s\<lparr> issued := issued s @ [DebuggerAttach t] \<rparr>)))"

definition detachDebugger :: "browser \<Rightarrow> nat \<Rightarrow> agent \<Rightarrow> reply \<times> agent" where
  "detachDebugger br t s =
     (if \<not> is_attached s t then (Already, s)
      else
        (case br (issued s) (DebuggerDetach t) of
           Resolves _ \<Rightarrow>
             (Success,
              s\<lparr> issued := issued s @ [DebuggerDetach t],
                 debuggerAttached := (debuggerAttached s)(t := None) \<rparr>)
         | Throws m \<Rightarrow> (Error m, s\<lparr> issued := issued s @ [DebuggerDetach t] \<rparr>)))"

text \<open>
  \<open>sendCDPCommand\<close>: attach first when the tab has no attached session and give up with the
  error of the attach; then one \<open>chrome.debugger.sendCommand\<close>, whose exception becomes an
  error object.
\<close>

definition issueCommand :: "browser \<Rightarrow> nat \<Rightarrow> string \<Rightarrow> agent \<Rightarrow> reply \<times> agent" where
  "issueCommand br t m s =
     (case br (issued s) (DebuggerSendCommand t m) of
        Resolves r \<Rightarrow> (CommandResult r, s\<lparr> issued := issued s @ [DebuggerSendCommand t m] \<rparr>)
      | Throws e \<Rightarrow> (Error e, s\<lparr> issued := issued s @ [DebuggerSendCommand t m] \<rparr>))"

text \<open>
  The tests \<open>attachResult.error\<close> and \<open>result?.error\<close> read the property for its truth
  value: an error object whose message is the empty string does not count as an error.
\<close>

definition is_error :: "reply \<Rightarrow> bool" where
  "is_error r = (case r of Error m \<Rightarrow> m \<noteq> [] | _ \<Rightarrow> False)"

definition sendCDPCommand :: "browser \<Rightarrow> nat \<Rightarrow> string \<Rightarrow> agent \<Rightarrow> reply \<times> agent" where
  "sendCDPCommand br t m s =
     (if \<not> is_attached s t then
        (case attachDebugger br t s of
           (attachResult, s1) \<Rightarrow>
             if is_error attachResult then (attachResult, s1) else issueCommand br t m s1)
      else issueCommand br t m s)"

text \<open>
  \<open>enableCDPDomain\<close> reads \<open>tabData\<close> before the command is sent and afterwards adds the
  domain to the set of that very object.  The object is still the entry of the map only
  when it was attached at the time of the read: otherwise \<open>sendCDPCommand\<close> attaches and
  \<open>attachDebugger\<close> stores a new object under the tab, so the domain is added to an object
  the map no longer holds (or, with \<open>tabData\<close> undefined, to nothing).
\<close>

definition has_domain :: "session option \<Rightarrow> string \<Rightarrow> bool" where
  "has_domain tabData d = (case tabData of None \<Rightarrow> False | Some x \<Rightarrow> d \<in> domains x)"

definition mark_enabled :: "session option \<Rightarrow> nat \<Rightarrow> string \<Rightarrow> agent \<Rightarrow> agent" where
  "mark_enabled tabData t d s =
     (case tabData of
        None \<Rightarrow> s
      | Some x \<Rightarrow>
          if attached x
          then s\<lparr> debuggerAttached := (debuggerAttached s)(t \<mapsto> x\<lparr> domains := insert d (domains x) \<rparr>) \<rparr>
          else s)"

definition enableCDPDomain :: "browser \<Rightarrow> nat \<Rightarrow> string \<Rightarrow> agent \<Rightarrow> reply \<times> agent" where
  "enableCDPDomain br t d s =
     (let tabData = debuggerAttached s t in
      if has_domain tabData d then (Already, s)
      else
        (case sendCDPCommand br t (d @ ''.enable'') s of
           (result, s1) \<Rightarrow>
             if \<not> is_error result then (result, mark_enabled tabData t d s1) else (result, s1)))"

text \<open>The listener of \<open>chrome.tabs.onRemoved\<close>.\<close>

definition onRemoved :: "nat \<Rightarrow> agent \<Rightarrow> agent" where
  "onRemoved t s =
     (let s1 = (if debuggerAttached s t \<noteq> None
                then s\<lparr> debuggerAttached := (debuggerAttached s)(t := None) \<rparr> else s)
      in s1\<lparr> networkRequests := (networkRequests s1)(t := None),
             consoleLogs := (consoleLogs s1)(t := None),
             animations := (animations s1)(t := None) \<rparr>)"

subsection \<open>Debugger events\<close>

datatype cdp_event =
    RequestWillBeSent string string
  | ResponseReceived string string
  | ConsoleAPICalled string string
  | ExceptionThrown string
  | MessageAdded string string
  | AnimationEvent string
  | OtherEvent string

text \<open>\<open>push\<close> followed by \<open>if (xs.length > n) xs.shift()\<close>.\<close>

definition push_bounded :: "nat \<Rightarrow> 'a \<Rightarrow> 'a list \<Rightarrow> 'a list" where
  "push_bounded n x xs = (if length (xs @ [x]) > n then tl (xs @ [x]) else xs @ [x])"

definition or_empty :: "'a list option \<Rightarrow> 'a list" where
  "or_empty m = (case m of None \<Rightarrow> [] | Some xs \<Rightarrow> xs)"

fun set_status :: "string \<Rightarrow> string \<Rightarrow> (string \<times> string \<times> string option) list
    \<Rightarrow> (string \<times> string \<times> string option) list" where
  "set_status rid st [] = []"
| "set_status rid st ((r, u, x) # rs) =
     (if r = rid then (r, u, Some st) # rs else (r, u, x) # set_status rid st rs)"

text \<open>The listener of \<open>chrome.debugger.onEvent\<close> that is installed once, for every tab.\<close>

fun onEvent :: "nat \<Rightarrow> cdp_event \<Rightarrow> agent \<Rightarrow> agent" where
  "onEvent t (RequestWillBeSent rid url) s =
     s\<lparr> networkRequests := (networkRequests s)
          (t \<mapsto> push_bounded 100 (rid, url, None) (or_empty (networkRequests s t))) \<rparr>"
| "onEvent t (ResponseReceived rid st) s =
     (case networkRequests s t of
        None \<Rightarrow> s
      | Some rs \<Rightarrow> s\<lparr> networkRequests := (networkRequests s)(t \<mapsto> set_status rid st rs) \<rparr>)"
| "onEvent t (ConsoleAPICalled ty text) s =
     s\<lparr> consoleLogs := (consoleLogs s)
          (t \<mapsto> push_bounded 100 (ty, text) (or_empty (consoleLogs s t))) \<rparr>"
| "onEvent t (ExceptionThrown text) s =
     s\<lparr> consoleLogs := (consoleLogs s)(t \<mapsto> or_empty (consoleLogs s t) @ [(''error'', text)]) \<rparr>"
| "onEvent t (AnimationEvent a) s =
     s\<lparr> animations := (animations s)(t \<mapsto> push_bounded 50 a (or_empty (animations s t))) \<rparr>"
| "onEvent t (MessageAdded lv text) s = s"
| "onEvent t (OtherEvent m) s = s"

subsection \<open>Extension error capture\<close>

text \<open>
  What \<open>captureExtensionErrors\<close> gets from outside during one call: the answer of
  \<open>chrome.management.get\<close> (the extension's info, nothing, or an exception), the exception
  of \<open>chrome.tabs.create\<close> if it throws and the tab it opens otherwise, the debugger events
  delivered while it waits, each with the tab it comes from, the list that the probe
  expression evaluates to, the \<open>closeTab\<close> option, and the exception of
  \<open>chrome.tabs.remove\<close> if it throws.  Every exception ends in the \<open>catch\<close> of the
  function, which returns its message.
\<close>

datatype lookup = Info | NoInfo | LookupThrows string

record capture_env =
  found :: lookup
  create_throws :: "string option"
  opened :: nat
  window :: "(nat \<times> cdp_event) list"
  probe :: "string list"
  closeTab :: bool
  remove_throws :: "string option"

text \<open>
  \<open>errorHandler\<close>, the listener that lives for one capture.  It pushes onto the store
  object read before the wait, which is the map's entry for the extension.
\<close>

definition upd_store :: "string \<Rightarrow> (store \<Rightarrow> store) \<Rightarrow> agent \<Rightarrow> agent" where
  "upd_store e f s =
     (case extensionErrorStore s e of
        None \<Rightarrow> s
      | Some x \<Rightarrow> s\<lparr> extensionErrorStore := (extensionErrorStore s)(e \<mapsto> f x) \<rparr>)"

definition push_error :: "string \<times> string \<Rightarrow> store \<Rightarrow> store" where
  "push_error x st = st\<lparr> errors := errors st @ [x] \<rparr>"

definition push_console :: "string \<times> string \<Rightarrow> store \<Rightarrow> store" where
  "push_console x st = st\<lparr> console := console st @ [x] \<rparr>"

fun errorHandler :: "string \<Rightarrow> nat \<Rightarrow> nat \<times> cdp_event \<Rightarrow> agent \<Rightarrow> agent" where
  "errorHandler e tab (src, ev) s =
     (if src \<noteq> tab then s
      else
        (case ev of
           ExceptionThrown text \<Rightarrow>
             upd_store e (push_error (''exception'', if text = [] then ''Unknown error'' else text)) s
         | MessageAdded lv text \<Rightarrow> upd_store e (push_console (lv, text)) s
         | ConsoleAPICalled ty text \<Rightarrow> upd_store e (push_console (ty, text)) s
         | _ \<Rightarrow> s))"

text \<open>Every event reaches both listeners, the permanent one first.\<close>

fun deliver :: "string \<Rightarrow> nat \<Rightarrow> (nat \<times> cdp_event) list \<Rightarrow> agent \<Rightarrow> agent" where
  "deliver e tab [] s = s"
| "deliver e tab (x # xs) s = deliver e tab xs (errorHandler e tab x (onEvent (fst x) (snd x) s))"

fun push_probe :: "string \<Rightarrow> string list \<Rightarrow> agent \<Rightarrow> agent" where
  "push_probe e [] s = s"
| "push_probe e (v # vs) s = push_probe e vs (upd_store e (push_error (''runtime'', v)) s)"

text \<open>\<open>extensionErrorStore.has(extensionId)\<close>.\<close>

definition has_store :: "agent \<Rightarrow> string \<Rightarrow> bool" where
  "has_store s e = (extensionErrorStore s e \<noteq> None)"

definition init_store :: "string \<Rightarrow> nat \<Rightarrow> agent \<Rightarrow> agent" where
  "init_store e tab s =
     (let s1 = (if \<not> has_store s e
                then s\<lparr> extensionErrorStore :=
                        (extensionErrorStore s)(e \<mapsto> \<lparr> errors = [], console = [], tabId = tab \<rparr>) \<rparr>
                else s)
      in upd_store e (\<lambda>st. st\<lparr> tabId := tab \<rparr>) s1)"

definition store_errors :: "agent \<Rightarrow> string \<Rightarrow> (string \<times> string) list" where
  "store_errors s e = (case extensionErrorStore s e of None \<Rightarrow> [] | Some st \<Rightarrow> errors st)"

definition store_console :: "agent \<Rightarrow> string \<Rightarrow> (string \<times> string) list" where
  "store_console s e = (case extensionErrorStore s e of None \<Rightarrow> [] | Some st \<Rightarrow> console st)"

definition error_text :: "reply \<Rightarrow> string" where
  "error_text r = (case r of Error m \<Rightarrow> m | _ \<Rightarrow> [])"

definition warning_or_error :: "string \<times> string \<Rightarrow> bool" where
  "warning_or_error c = (fst c = ''error'' \<or> fst c = ''warning'')"

text \<open>
  \<open>captureExtensionErrors\<close> in two parts.  \<open>capture_window\<close> is the part that runs once the
  debugger is attached to the opened page: enable the two domains, create the store if
  the extension has none and note the tab in it, listen while waiting, evaluate the probe
  and push what it returns, and detach when the tab is to be closed.  A failing
  \<open>chrome.tabs.remove\<close> throws into the \<open>catch\<close>, which returns the message.
\<close>

definition capture_window :: "browser \<Rightarrow> capture_env \<Rightarrow> string \<Rightarrow> agent \<Rightarrow> agent" where
  "capture_window br env e s1 =
     (let tab = opened env;
          s2 = snd (sendCDPCommand br tab ''Console.enable'' s1);
          s3 = snd (sendCDPCommand br tab ''Runtime.enable'' s2);
          s4 = init_store e tab s3;
          s5 = deliver e tab (window env) s4;
          (evalResult, s6) = sendCDPCommand br tab ''Runtime.evaluate'' s5;
          s7 = (case evalResult of CommandResult _ \<Rightarrow> push_probe e (probe env) s6 | _ \<Rightarrow> s6)
      in if closeTab env then snd (detachDebugger br tab s7) else s7)"

definition captureExtensionErrors ::
    "browser \<Rightarrow> capture_env \<Rightarrow> string \<Rightarrow> agent \<Rightarrow> reply \<times> agent" where
  "captureExtensionErrors br env e s =
     (if e = [] then (Error ''Extension ID is required'', s)
      else
        (case found env of
           LookupThrows m \<Rightarrow> (Error m, s)
         | NoInfo \<Rightarrow> (Error (''Extension '' @ e @ '' not found''), s)
         | Info \<Rightarrow>
             (case create_throws env of
                Some m \<Rightarrow> (Error m, s)
              | None \<Rightarrow>
                  (case attachDebugger br (opened env) s of
                     (attachResult, s1) \<Rightarrow>
                       if is_error attachResult
                       then (case remove_throws env of
                               None \<Rightarrow> (Error (''Failed to attach debugger: '' @ error_text attachResult), s1)
                             | Some m \<Rightarrow> (Error m, s1))
                       else
                         (let s8 = capture_window br env e s1
                          in if closeTab env
                             then (case remove_throws env of
                                     Some m \<Rightarrow> (Error m, s8)
                                   | None \<Rightarrow>
                                       (Captured (store_errors s8 e)
                                          (filter warning_or_error (store_console s8 e)), s8))
                             else (Captured (store_errors s8 e)
                                     (filter warning_or_error (store_console s8 e)), s8))))))"

subsection \<open>The dispatcher\<close>

definition noAgentRequired :: "string list" where
  "noAgentRequired =
     [''browser_snapshot'', ''get_page_info'',
      ''list_extensions'', ''reload_extension'', ''get_extension_info'',
      ''enable_extension'', ''disable_extension'',
      ''open_extension_popup'', ''open_extension_options'', ''open_extension_devtools'',
      ''open_extension_errors'', ''trigger_extension_action'', ''get_extension_popup_content'',
      ''interact_with_extension'', ''close_tab'', ''cdp_attach'', ''cdp_detach'', ''cdp_command'']"

definition noTabRequired :: "string list" where
  "noTabRequired =
     [''list_extensions'', ''reload_extension'', ''get_extension_info'',
      ''enable_extension'', ''disable_extension'',
      ''open_extension_popup'', ''open_extension_options'', ''open_extension_devtools'',
      ''open_extension_errors'', ''trigger_extension_action'', ''get_extension_popup_content'',
      ''interact_with_extension'', ''close_tab'']"

text \<open>
  The parameters that the tools modelled here read: \<open>params.extensionId\<close> and
  \<open>params.method\<close>.
\<close>

record params =
  extensionId :: string
  cdp_method :: string

type_synonym handler = "string \<Rightarrow> nat option \<Rightarrow> params \<Rightarrow> agent \<Rightarrow> reply \<times> agent"

text \<open>
  The \<open>switch\<close> over the tool name, inside its \<open>try\<close>.  The cases for the error store and
  for the debugger are written out; \<open>rest\<close> stands for all the other cases.  Reading
  \<open>tab.id\<close> of a null tab throws, and the \<open>catch\<close> returns the message.
\<close>

definition with_tab :: "nat option \<Rightarrow> (nat \<Rightarrow> reply \<times> agent) \<Rightarrow> agent \<Rightarrow> reply \<times> agent" where
  "with_tab tab f s =
     (case tab of None \<Rightarrow> (Error ''Cannot read properties of null'', s) | Some t \<Rightarrow> f t)"

definition switch :: "browser \<Rightarrow> capture_env \<Rightarrow> handler \<Rightarrow> handler" where
  "switch br env rest tool tab ps s =
     (if tool = ''capture_extension_errors'' then captureExtensionErrors br env (extensionId ps) s
      else if tool = ''clear_extension_errors'' then
        (Message (''Cleared errors for '' @ extensionId ps),
         s\<lparr> extensionErrorStore := (extensionErrorStore s)(extensionId ps := None) \<rparr>)
      else if tool = ''cdp_attach'' then with_tab tab (\<lambda>t. attachDebugger br t s) s
      else if tool = ''cdp_detach'' then with_tab tab (\<lambda>t. detachDebugger br t s) s
      else if tool = ''cdp_command'' then with_tab tab (\<lambda>t. sendCDPCommand br t (cdp_method ps) s) s
      else rest tool tab ps s)"

definition executeToolCall ::
    "browser \<Rightarrow> capture_env \<Rightarrow> handler \<Rightarrow> nat option \<Rightarrow> string \<Rightarrow> params \<Rightarrow> agent
      \<Rightarrow> reply \<times> agent" where
  "executeToolCall br env rest activeTab tool ps s =
     (if \<not> agentEnabled s \<and> tool \<notin> set noAgentRequired
      then (Error ''Agent control is disabled'', s)
      else if tool \<notin> set noTabRequired
      then (case activeTab of
              None \<Rightarrow> (Error ''No active tab'', s)
            | Some tab \<Rightarrow> switch br env rest tool (Some tab) ps s)
      else switch br env rest tool None ps s)"

text \<open>The \<open>default\<close> case of the switch.\<close>

definition unknown_tool :: handler where
  "unknown_tool tool tab ps s = (Error (''Unknown tool: '' @ tool), s)"

subsection \<open>Sample surroundings\<close>

text \<open>A browser in which every call succeeds, and a capture during which nothing happens.\<close>

definition cooperative :: browser where
  "cooperative h c = Resolves ''{}''"

definition quiet :: capture_env where
  "quiet = \<lparr> found = Info, create_throws = None, opened = 9, window = [], probe = [],
     closeTab = True, remove_throws = None \<rparr>"

subsection \<open>What a capture adds\<close>

text \<open>
  The entries that \<open>errorHandler\<close> pushes for a list of events: the exceptions of the
  watched tab go to \<open>errors\<close>, its console messages to \<open>console\<close>.  These two functions
  restate the handler event by event and are used to say what a capture adds.
\<close>

fun window_errors :: "nat \<Rightarrow> (nat \<times> cdp_event) list \<Rightarrow> (string \<times> string) list" where
  "window_errors tab [] = []"
| "window_errors tab ((src, ExceptionThrown text) # xs) =
     (if src = tab then (''exception'', if text = [] then ''Unknown error'' else text) # window_errors tab xs
      else window_errors tab xs)"
| "window_errors tab (x # xs) = window_errors tab xs"

fun window_console :: "nat \<Rightarrow> (nat \<times> cdp_event) list \<Rightarrow> (string \<times> string) list" where
  "window_console tab [] = []"
| "window_console tab ((src, MessageAdded lv text) # xs) =
     (if src = tab then (lv, text) # window_console tab xs else window_console tab xs)"
| "window_console tab ((src, ConsoleAPICalled lv text) # xs) =
     (if src = tab then (lv, text) # window_console tab xs else window_console tab xs)"
| "window_console tab (x # xs) = window_console tab xs"

text \<open>The reply to the probe, \<open>Runtime.evaluate\<close>, within \<open>capture_window\<close>.\<close>

definition probe_reply :: "browser \<Rightarrow> capture_env \<Rightarrow> string \<Rightarrow> agent \<Rightarrow> reply" where
  "probe_reply br env e s1 =
     fst (sendCDPCommand br (opened env) ''Runtime.evaluate''
       (deliver e (opened env) (window env)
         (init_store e (opened env)
           (snd (sendCDPCommand br (opened env) ''Runtime.enable''
             (snd (sendCDPCommand br (opened env) ''Console.enable'' s1)))))))"

text \<open>More sample surroundings, for the evaluations below.\<close>

definition noisy :: capture_env where
  "noisy = \<lparr> found = Info, create_throws = None, opened = 9,
     window = [(9, ExceptionThrown ''boom''), (9, ConsoleAPICalled ''warning'' ''slow''),
               (4, ExceptionThrown ''elsewhere'')],
     probe = [''late''], closeTab = True, remove_throws = None \<rparr>"

definition no_params :: params where
  "no_params = \<lparr> extensionId = [], cdp_method = [] \<rparr>"

definition sample_agent :: agent where
  "sample_agent = fresh_agent\<lparr> extensionErrorStore :=
     [''ext'' \<mapsto> \<lparr> errors = [(''exception'', ''old'')], console = [], tabId = 3 \<rparr>] \<rparr>"

definition ext_params :: params where
  "ext_params = \<lparr> extensionId = ''ext'', cdp_method = [] \<rparr>"

definition attached7 :: agent where
  "attached7 = snd (attachDebugger cooperative 7 fresh_agent)"

section \<open>The relay (src/mcp-server/index.js)\<close>

text \<open>
  The relay is an event-driven program: its module-level variables are the fields of the
  record \<open>relay\<close>, and each handler is a function on that record.  A handler runs to its
  end before the next event; when it resolves a promise that \<open>processQueue\<close> awaits, the
  continuation of \<open>processQueue\<close> runs as a microtask before any further event, so the
  continuation is part of the same step.  \<open>processQueue\<close> is suspended at one of two
  \<open>await\<close>s, or is not running: that is the field \<open>awaiting\<close>.

  Sockets, callers and calls are numbers: a socket is named by a number, the promise that
  the \<open>n\<close>-th \<open>callTool\<close> returns by \<open>n\<close> (counted in \<open>callers\<close>), and the callback stored
  in \<open>pendingRequests\<close> under a call id by the id of the timer it clears and of the
  promise it resolves.  \<open>timers\<close> holds the timers set and neither fired nor cleared, with
  their delay in milliseconds.  \<open>history\<close> records, in order, what the relay did.
\<close>

datatype result = FromPeer string | ErrorResult string

record request =
  name :: string
  args :: string
  resolve :: nat

datatype loop = Idle | AwaitResult nat request | AwaitDelay nat

datatype action =
    Sent nat nat string string
  | SendFailed nat
  | Received nat
  | TimedOut nat
  | Dropped nat
  | Resolved nat result

record relay =
  chromeClient :: "nat option"
  openSockets :: "nat list"
  pendingRequests :: "(nat \<times> nat) list"
  requestId :: nat
  requestQueue :: "request list"
  isProcessingQueue :: bool
  timers :: "(nat \<times> nat) list"
  awaiting :: loop
  callers :: nat
  history :: "action list"

definition init :: relay where
  "init = \<lparr> chromeClient = None, openSockets = [], pendingRequests = [], requestId = 0,
     requestQueue = [], isProcessingQueue = False, timers = [], awaiting = Idle, callers = 0,
     history = [] \<rparr>"

definition logged :: "action \<Rightarrow> relay \<Rightarrow> relay" where
  "logged a s = s\<lparr> history := history s @ [a] \<rparr>"

text \<open>The socket to send on: \<open>chromeClient\<close>, when it is set and its \<open>readyState\<close> is open.\<close>

definition peer :: "relay \<Rightarrow> nat option" where
  "peer s = (case chromeClient s of
               None \<Rightarrow> None
             | Some ws \<Rightarrow> if ws \<in> set (openSockets s) then Some ws else None)"

text \<open>
  The rest of the loop body once the awaited promise has the value \<open>r\<close>: \<open>resolve(result)\<close>,
  then the 50 ms delay when the queue is not empty, else the end of the loop.
\<close>

definition resume :: "request \<Rightarrow> result \<Rightarrow> relay \<Rightarrow> relay" where
  "resume q r s =
     (let s1 = logged (Resolved (resolve q) r) s in
      if requestQueue s1 \<noteq> [] then s1\<lparr> awaiting := AwaitDelay 50 \<rparr>
      else s1\<lparr> isProcessingQueue := False, awaiting := Idle \<rparr>)"

text \<open>
  \<open>res(r)\<close> for the promise of call \<open>i\<close>: it has an effect only when that promise is the one
  awaited.
\<close>

definition res :: "nat \<Rightarrow> result \<Rightarrow> relay \<Rightarrow> relay" where
  "res i r s =
     (case awaiting s of
        AwaitResult j q \<Rightarrow> if i = j then resume q r s else s
      | _ \<Rightarrow> s)"

definition clearTimeout :: "nat \<Rightarrow> relay \<Rightarrow> relay" where
  "clearTimeout i s = s\<lparr> timers := filter (\<lambda>t. fst t \<noteq> i) (timers s) \<rparr>"

text \<open>The stored callback \<open>(r) => { clearTimeout(timer); res(r); }\<close>.\<close>

definition callback :: "nat \<Rightarrow> result \<Rightarrow> relay \<Rightarrow> relay" where
  "callback p r s = res p r (clearTimeout p s)"

text \<open>
  One request sent on socket \<open>ws\<close>: the next id, the 30 s timer, the pending entry, the
  send.  \<open>fail\<close> is the message of the exception that \<open>send\<close> throws, if it throws.  The
  promise is then resolved at once and the rest of the loop body follows at the end of the
  turn; every \<open>callTool\<close> is taken as a turn of its own, so nothing comes in between.
\<close>

definition dispatch :: "string option \<Rightarrow> nat \<Rightarrow> request \<Rightarrow> relay \<Rightarrow> relay" where
  "dispatch fail ws q s =
     (let i = Suc (requestId s);
          s2 = s\<lparr> requestId := i, timers := timers s @ [(i, 30000)],
                  pendingRequests := AList.update i i (pendingRequests s),
                  awaiting := AwaitResult i q \<rparr>
      in case fail of
           None \<Rightarrow> logged (Sent ws i (name q) (args q)) s2
         | Some e \<Rightarrow>
             res i (ErrorResult (''Send failed: '' @ e))
               (logged (SendFailed i)
                 ((clearTimeout i s2)\<lparr> pendingRequests := AList.delete i (pendingRequests s2) \<rparr>)))"

text \<open>
  The \<open>while\<close> loop of \<open>processQueue\<close>, from its test to the next \<open>await\<close> or to its end.
  Its list argument is the queue itself.  The awaited promise is only ever resolved, never
  rejected, and nothing else in the \<open>try\<close> throws, so its \<open>catch\<close> has no case here.
\<close>

fun whileLoop :: "string option \<Rightarrow> request list \<Rightarrow> relay \<Rightarrow> relay" where
  "whileLoop fail [] s = s\<lparr> isProcessingQueue := False, awaiting := Idle \<rparr>"
| "whileLoop fail (q # qs) s =
     (let s1 = s\<lparr> requestQueue := qs \<rparr> in
      case peer s1 of
        None \<Rightarrow> whileLoop fail qs (logged (Resolved (resolve q) (ErrorResult ''Not connected'')) s1)
      | Some ws \<Rightarrow> dispatch fail ws q s1)"

definition processQueue :: "string option \<Rightarrow> relay \<Rightarrow> relay" where
  "processQueue fail s =
     (if isProcessingQueue s \<or> requestQueue s = [] then s
      else whileLoop fail (requestQueue s) (s\<lparr> isProcessingQueue := True \<rparr>))"

definition callTool :: "string \<Rightarrow> string \<Rightarrow> string option \<Rightarrow> relay \<Rightarrow> relay" where
  "callTool nm ar fail s =
     processQueue fail
       (s\<lparr> requestQueue := requestQueue s @ [\<lparr> name = nm, args = ar, resolve = callers s \<rparr>],
           callers := Suc (callers s) \<rparr>)"

text \<open>The handlers of the socket: a \<open>tool_result\<close> message, and \<open>close\<close>.\<close>

definition onToolResult :: "nat \<Rightarrow> result \<Rightarrow> relay \<Rightarrow> relay" where
  "onToolResult i r s =
     (case map_of (pendingRequests s) i of
        None \<Rightarrow> s
      | Some p \<Rightarrow>
          (let s1 = callback p r (logged (Received i) s)
           in s1\<lparr> pendingRequests := AList.delete i (pendingRequests s1) \<rparr>))"

fun closeAll :: "(nat \<times> nat) list \<Rightarrow> relay \<Rightarrow> relay" where
  "closeAll [] s = s"
| "closeAll ((i, p) # ps) s =
     closeAll ps (callback p (ErrorResult ''Connection closed'') (logged (Dropped i) s))"

definition onClose :: "nat \<Rightarrow> relay \<Rightarrow> relay" where
  "onClose ws s =
     (let s0 = s\<lparr> openSockets := removeAll ws (openSockets s) \<rparr> in
      if chromeClient s0 = Some ws
      then (closeAll (pendingRequests s0) (s0\<lparr> chromeClient := None \<rparr>))\<lparr> pendingRequests := [] \<rparr>
      else s0)"

text \<open>The two timers: the 30 s timer of call \<open>i\<close>, and the delay between two requests.\<close>

definition onTimeout :: "nat \<Rightarrow> relay \<Rightarrow> relay" where
  "onTimeout i s =
     (if i \<in> fst ` set (timers s)
      then res i (ErrorResult ''Timeout'')
             (logged (TimedOut i)
               ((clearTimeout i s)\<lparr> pendingRequests := AList.delete i (pendingRequests s) \<rparr>))
      else s)"

definition onDelay :: "string option \<Rightarrow> relay \<Rightarrow> relay" where
  "onDelay fail s =
     (case awaiting s of
        AwaitDelay d \<Rightarrow> whileLoop fail (requestQueue s) s
      | _ \<Rightarrow> s)"

text \<open>
  The events.  \<open>Connection\<close> is a socket becoming open and \<open>NotOpen\<close> its \<open>readyState\<close>
  leaving the open state before the \<open>close\<close> event; \<open>Register\<close> is the \<open>register\<close> message of
  server mode, or \<open>open\<close> in client mode.  A timer event that is not set, or a delay nobody
  waits for, does nothing.
\<close>

datatype event =
    CallTool string string "string option"
  | Connection nat
  | Register nat
  | NotOpen nat
  | Close nat
  | ToolResult nat result
  | Timeout nat
  | DelayElapsed "string option"

fun step :: "event \<Rightarrow> relay \<Rightarrow> relay" where
  "step (CallTool nm ar fail) s = callTool nm ar fail s"
| "step (Connection ws) s = s\<lparr> openSockets := ws # openSockets s \<rparr>"
| "step (Register ws) s = s\<lparr> chromeClient := Some ws \<rparr>"
| "step (NotOpen ws) s = s\<lparr> openSockets := removeAll ws (openSockets s) \<rparr>"
| "step (Close ws) s = onClose ws s"
| "step (ToolResult i r) s = onToolResult i r s"
| "step (Timeout i) s = onTimeout i s"
| "step (DelayElapsed fail) s = onDelay fail s"

definition run :: "event list \<Rightarrow> relay \<Rightarrow> relay" where
  "run es s = foldl (\<lambda>st e. step e st) s es"

subsection \<open>Reading the history\<close>

text \<open>
  Single flight, read off the history from left to right.  The state is a flag and the
  list of calls sent and not yet closed; a call is closed when its result is received or
  its timer fires and, with \<open>closing\<close>, also when the close handler drops it.  The flag
  falls when a call is sent while another one is not closed.
\<close>

fun sf_step :: "bool \<Rightarrow> bool \<times> nat list \<Rightarrow> action \<Rightarrow> bool \<times> nat list" where
  "sf_step closing (ok, out) (Sent ws i nm ar) = (ok \<and> out = [], out @ [i])"
| "sf_step closing (ok, out) (Received i) = (ok, removeAll i out)"
| "sf_step closing (ok, out) (TimedOut i) = (ok, removeAll i out)"
| "sf_step closing (ok, out) (Dropped i) = (ok, if closing then removeAll i out else out)"
| "sf_step closing (ok, out) (SendFailed i) = (ok, out)"
| "sf_step closing (ok, out) (Resolved c r) = (ok, out)"

definition single_flight :: "bool \<Rightarrow> action list \<Rightarrow> bool" where
  "single_flight closing h = fst (foldl (sf_step closing) (True, []) h)"

text \<open>The values with which caller \<open>c\<close> was resolved, and the callers not yet resolved.\<close>

fun answers :: "nat \<Rightarrow> action list \<Rightarrow> result list" where
  "answers c [] = []"
| "answers c (Resolved c' r # h) = (if c' = c then r # answers c h else answers c h)"
| "answers c (a # h) = answers c h"

definition in_flight :: "relay \<Rightarrow> nat list" where
  "in_flight s = (case awaiting s of AwaitResult i q \<Rightarrow> [resolve q] | _ \<Rightarrow> [])"

definition waiting :: "relay \<Rightarrow> nat list" where
  "waiting s = in_flight s @ map resolve (requestQueue s)"

text \<open>
  Letting the timers fire, and nothing else happen: the timer of the call in flight, or
  the delay, \<open>n\<close> times at most.
\<close>

fun fire_timers :: "nat \<Rightarrow> relay \<Rightarrow> relay" where
  "fire_timers 0 s = s"
| "fire_timers (Suc n) s =
     (case awaiting s of
        Idle \<Rightarrow> s
      | AwaitResult i q \<Rightarrow> fire_timers n (step (Timeout i) s)
      | AwaitDelay d \<Rightarrow> fire_timers n (step (DelayElapsed None) s))"

subsection \<open>The invariant of the relay\<close>

text \<open>
  The shape of every reachable state: where \<open>processQueue\<close> is suspended decides the
  pending table, the timers, the flag and whether the queue can be empty.
\<close>

definition well_formed :: "relay \<Rightarrow> bool" where
  "well_formed s =
     (case awaiting s of
        Idle \<Rightarrow> pendingRequests s = [] \<and> timers s = [] \<and> \<not> isProcessingQueue s \<and> requestQueue s = []
      | AwaitResult i q \<Rightarrow>
          pendingRequests s = [(i, i)] \<and> timers s = [(i, 30000)] \<and> isProcessingQueue s \<and> i \<le> requestId s
      | AwaitDelay d \<Rightarrow>
          pendingRequests s = [] \<and> timers s = [] \<and> isProcessingQueue s \<and> requestQueue s \<noteq> [] \<and> d = 50)"

text \<open>The calls sent and not closed, read off the history, are the keys of the pending table.\<close>

definition hist_ok :: "relay \<Rightarrow> bool" where
  "hist_ok s = (foldl (sf_step True) (True, []) (history s) = (True, map fst (pendingRequests s)))"

text \<open>
  Every promise that \<open>callTool\<close> has created is either waiting, once, or resolved, once.
\<close>

definition tickets_ok :: "relay \<Rightarrow> bool" where
  "tickets_ok s =
     (\<forall>c. length (answers c (history s)) + count_list (waiting s) c = (if c < callers s then 1 else 0))"

definition ticket :: "relay \<Rightarrow> nat \<Rightarrow> nat" where
  "ticket s c = length (answers c (history s)) + count_list (waiting s) c"

definition relay_inv :: "relay \<Rightarrow> bool" where
  "relay_inv s = (well_formed s \<and> hist_ok s \<and> tickets_ok s)"

text \<open>The states in which the \<open>while\<close> loop is entered or re-entered.\<close>

definition ready :: "relay \<Rightarrow> bool" where
  "ready s = (pendingRequests s = [] \<and> timers s = [] \<and> isProcessingQueue s
     \<and> (case awaiting s of AwaitResult i q \<Rightarrow> False | _ \<Rightarrow> True))"

text \<open>What the loop records when it finds no peer: every queued request is refused.\<close>

definition refused :: "request list \<Rightarrow> action list" where
  "refused qs = map (\<lambda>q. Resolved (resolve q) (ErrorResult ''Not connected'')) qs"

text \<open>
  The end of the call in flight, whatever ends it: the pending entry and the timer are
  gone, the cause \<open>a\<close> is recorded and \<open>processQueue\<close> resumes with the value \<open>r\<close>.
\<close>

definition ended :: "action \<Rightarrow> request \<Rightarrow> result \<Rightarrow> relay \<Rightarrow> relay" where
  "ended a q r s = resume q r (s\<lparr> pendingRequests := [], timers := [], history := history s @ [a] \<rparr>)"

text \<open>An id that has been allocated and is no longer in the pending table.\<close>

definition stale :: "nat \<Rightarrow> relay \<Rightarrow> bool" where
  "stale i s = (i \<le> requestId s \<and> map_of (pendingRequests s) i = None)"

text \<open>A bound on the number of timer events that empty the queue.\<close>

definition fuel :: "relay \<Rightarrow> nat" where
  "fuel s = 2 * length (requestQueue s) + (case awaiting s of AwaitResult i q \<Rightarrow> 1 | _ \<Rightarrow> 0)"

subsection \<open>Sample runs\<close>

text \<open>
  A peer connects and registers and two calls are submitted: the first is sent, the second
  waits in the queue.  In \<open>reconnect\<close> the peer then closes and another one registers
  before the delay ends.
\<close>

definition two_calls :: "event list" where
  "two_calls = [Connection 1, Register 1, CallTool ''a'' ''{}'' None, CallTool ''b'' ''{}'' None]"

definition request_a :: request where
  "request_a = \<lparr> name = ''a'', args = ''{}'', resolve = 0 \<rparr>"

definition request_b :: request where
  "request_b = \<lparr> name = ''b'', args = ''{}'', resolve = 1 \<rparr>"

definition reconnect :: "event list" where
  "reconnect = two_calls @ [Close 1, Connection 2, Register 2, DelayElapsed None]"

section \<open>Properties of the debugger manager\<close>

lemma is_attached_after_attach:
  "br (issued s) (DebuggerAttach t) = Resolves x \<Longrightarrow> is_attached (snd (attachDebugger br t s)) t"
  by (simp add: attachDebugger_def is_attached_def split: option.splits)

text \<open>
  C6.  Calling \<open>attachDebugger\<close> twice in a row for a tab, with a browser that accepts the
  attach: neither call returns an error, the second call returns the already-attached
  indication and changes nothing, and the two calls together issue exactly one
  \<open>chrome.debugger.attach\<close> when the tab had no attached session (and none when it had one).
\<close>

theorem attachDebugger_idempotent:
  assumes "br (issued s) (DebuggerAttach t) = Resolves x"
  shows "fst (attachDebugger br t s) = (if is_attached s t then Already else Success)
       \<and> attachDebugger br t (snd (attachDebugger br t s)) = (Already, snd (attachDebugger br t s))
       \<and> issued (snd (attachDebugger br t (snd (attachDebugger br t s))))
           = issued s @ (if is_attached s t then [] else [DebuggerAttach t])"
proof -
  have a: "is_attached (snd (attachDebugger br t s)) t"
    using assms by (rule is_attached_after_attach)
  have 1: "fst (attachDebugger br t s) = (if is_attached s t then Already else Success)"
    using assms by (simp add: attachDebugger_def)
  have 2: "attachDebugger br t (snd (attachDebugger br t s)) = (Already, snd (attachDebugger br t s))"
    using a by (simp add: attachDebugger_def)
  have 3: "issued (snd (attachDebugger br t s)) = issued s @ (if is_attached s t then [] else [DebuggerAttach t])"
    using assms by (simp add: attachDebugger_def)
  show ?thesis using 1 2 3 by simp
qed

theorem attachDebugger_idempotent_witness:
  "fst (attachDebugger cooperative 7 fresh_agent) = Success
   \<and> fst (attachDebugger cooperative 7 (snd (attachDebugger cooperative 7 fresh_agent))) = Already
   \<and> issued (snd (attachDebugger cooperative 7 (snd (attachDebugger cooperative 7 fresh_agent))))
       = [DebuggerAttach 7]"
proof -
  have h: "cooperative (issued fresh_agent) (DebuggerAttach 7) = Resolves ''{}''"
    by (simp add: cooperative_def)
  have n: "\<not> is_attached fresh_agent 7"
    by (simp add: is_attached_def fresh_agent_def)
  have e: "issued fresh_agent = []"
    by (simp add: fresh_agent_def)
  note t = attachDebugger_idempotent [of cooperative fresh_agent 7 "''{}''", OF h]
  show ?thesis
    using t [THEN conjunct1] t [THEN conjunct2, THEN conjunct1]
      t [THEN conjunct2, THEN conjunct2] n e
    by simp
qed

text \<open>
  C10.  For a tab with no attached session, \<open>detachDebugger\<close> returns the already-detached
  indication, issues no \<open>chrome.debugger.detach\<close> and leaves the state as it is; so a
  second detach gives what the first gave.  After a detach that succeeded the tab has no
  attached session, so this covers the detach that follows one.
\<close>

theorem detachDebugger_idempotent:
  "(\<not> is_attached s t \<longrightarrow>
      detachDebugger br t s = (Already, s)
      \<and> issued (snd (detachDebugger br t s)) = issued s
      \<and> detachDebugger br t (snd (detachDebugger br t s)) = detachDebugger br t s)
   \<and> (fst (detachDebugger br t s) = Success \<longrightarrow> \<not> is_attached (snd (detachDebugger br t s)) t)"
  by (auto simp add: detachDebugger_def is_attached_def split: outcome.splits option.splits)

theorem detachDebugger_idempotent_witness:
  "detachDebugger cooperative 7 fresh_agent = (Already, fresh_agent)
   \<and> fst (detachDebugger cooperative 7 (snd (attachDebugger cooperative 7 fresh_agent))) = Success
   \<and> detachDebugger cooperative 7
         (snd (detachDebugger cooperative 7 (snd (attachDebugger cooperative 7 fresh_agent))))
       = (Already, snd (detachDebugger cooperative 7 (snd (attachDebugger cooperative 7 fresh_agent))))"
proof -
  let ?a = "snd (attachDebugger cooperative 7 fresh_agent)"
  have n: "\<not> is_attached fresh_agent 7"
    by (simp add: is_attached_def fresh_agent_def)
  have s: "fst (detachDebugger cooperative 7 ?a) = Success"
    by (simp add: detachDebugger_def attachDebugger_def is_attached_def fresh_agent_def
        cooperative_def)
  show ?thesis
    using detachDebugger_idempotent [of fresh_agent 7 cooperative]
      detachDebugger_idempotent [of ?a 7 cooperative]
      detachDebugger_idempotent [of "snd (detachDebugger cooperative 7 ?a)" 7 cooperative] n s
    by simp
qed

text \<open>
  C9.  When a tab closes, the entries of that tab in the session table, the network log,
  the console log and the animation log are removed, the entries of every other tab stay
  as they are, and neither the extension error stores nor anything else changes.
\<close>

theorem onRemoved_frame:
  "debuggerAttached (onRemoved t s) = (debuggerAttached s)(t := None)
   \<and> networkRequests (onRemoved t s) = (networkRequests s)(t := None)
   \<and> consoleLogs (onRemoved t s) = (consoleLogs s)(t := None)
   \<and> animations (onRemoved t s) = (animations s)(t := None)
   \<and> extensionErrorStore (onRemoved t s) = extensionErrorStore s
   \<and> issued (onRemoved t s) = issued s
   \<and> agentEnabled (onRemoved t s) = agentEnabled s"
  by (auto simp add: onRemoved_def Let_def)

section \<open>Properties of the domain enabling\<close>

text \<open>
  C5 as stated fails: the first \<open>Network\<close> command sent through \<open>sendCDPCommand\<close> on a new
  session is preceded by the attach only; no \<open>Network.enable\<close> is issued and no domain is
  recorded.
\<close>

theorem sendCDPCommand_no_implicit_enable:
  "issued (snd (sendCDPCommand cooperative 7 ''Network.getAllCookies'' fresh_agent))
     = [DebuggerAttach 7, DebuggerSendCommand 7 ''Network.getAllCookies'']
   \<and> debuggerAttached (snd (sendCDPCommand cooperative 7 ''Network.getAllCookies'' fresh_agent)) 7
     = Some \<lparr> attached = True, domains = {} \<rparr>"
  by (simp add: sendCDPCommand_def attachDebugger_def issueCommand_def is_attached_def
      is_error_def fresh_agent_def cooperative_def)

lemma issued_sendCDPCommand:
  "issued (snd (sendCDPCommand br t m s)) =
      issued s @ (if is_attached s t then [DebuggerSendCommand t m]
                  else (case br (issued s) (DebuggerAttach t) of
                          Resolves x \<Rightarrow> [DebuggerAttach t, DebuggerSendCommand t m]
                        | Throws e \<Rightarrow>
                            if e = [] then [DebuggerAttach t, DebuggerSendCommand t m]
                            else [DebuggerAttach t]))"
  by (simp add: sendCDPCommand_def attachDebugger_def issueCommand_def is_error_def
      split: outcome.splits)

lemma sessions_sendCDPCommand:
  "is_attached s t \<Longrightarrow> debuggerAttached (snd (sendCDPCommand br t m s)) = debuggerAttached s"
  by (simp add: sendCDPCommand_def issueCommand_def split: outcome.splits)

lemma issued_enableCDPDomain:
  "\<not> has_domain (debuggerAttached s t) d \<Longrightarrow>
   issued (snd (enableCDPDomain br t d s)) = issued (snd (sendCDPCommand br t (d @ ''.enable'') s))"
  by (cases "sendCDPCommand br t (d @ ''.enable'') s")
    (simp add: enableCDPDomain_def mark_enabled_def Let_def split: option.splits)

lemma enableCDPDomain_accepted:
  assumes "is_attached s t" and "\<not> has_domain (debuggerAttached s t) d"
    and "br (issued s) (DebuggerSendCommand t (d @ ''.enable'')) = Resolves r"
  shows "issued (snd (enableCDPDomain br t d s)) = issued s @ [DebuggerSendCommand t (d @ ''.enable'')]"
    and "is_attached (snd (enableCDPDomain br t d s)) t"
    and "has_domain (debuggerAttached (snd (enableCDPDomain br t d s)) t) d"
  using assms
  by (auto simp add: enableCDPDomain_def sendCDPCommand_def issueCommand_def is_error_def
      mark_enabled_def is_attached_def has_domain_def Let_def split: option.splits)

lemma enableCDPDomain_keeps:
  assumes "is_attached s t" and "has_domain (debuggerAttached s t) d"
  shows "is_attached (snd (enableCDPDomain br t d' s)) t"
    and "has_domain (debuggerAttached (snd (enableCDPDomain br t d' s)) t) d"
proof -
  obtain x where x: "debuggerAttached s t = Some x" "attached x" "d \<in> domains x"
    using assms by (auto simp add: is_attached_def has_domain_def split: option.splits)
  obtain r s1 where c: "sendCDPCommand br t (d' @ ''.enable'') s = (r, s1)"
    by (cases "sendCDPCommand br t (d' @ ''.enable'') s")
  have s1: "debuggerAttached s1 = debuggerAttached s"
    using sessions_sendCDPCommand [OF assms(1), of br "d' @ ''.enable''"] c by simp
  show "is_attached (snd (enableCDPDomain br t d' s)) t"
    using x c s1
    by (simp add: enableCDPDomain_def mark_enabled_def is_attached_def has_domain_def Let_def)
  show "has_domain (debuggerAttached (snd (enableCDPDomain br t d' s)) t) d"
    using x c s1
    by (simp add: enableCDPDomain_def mark_enabled_def is_attached_def has_domain_def Let_def)
qed

text \<open>
  C5, as the code has it.  \<open>sendCDPCommand\<close> attaches first when the tab has no attached
  session and then issues the command it was given, and nothing else: it issues no enable
  of its own.  (After an attach that failed with a message it issues nothing more; an
  attach error with an empty message does not stop it.)  \<open>enableCDPDomain\<close> issues nothing
  and returns the already-enabled indication for a domain recorded in the session, and
  otherwise issues exactly what \<open>sendCDPCommand\<close> issues for the \<open>enable\<close> of the domain.  On
  a session that is attached when \<open>enableCDPDomain\<close> is called, an enable that the browser
  accepts is the only call issued and the domain is recorded; a recorded domain stays
  recorded through every later \<open>sendCDPCommand\<close> and \<open>enableCDPDomain\<close> on that tab, so no
  later \<open>enableCDPDomain\<close> issues its enable again.
\<close>

theorem enableCDPDomain_once:
  "issued (snd (sendCDPCommand br t m s)) =
      issued s @ (if is_attached s t then [DebuggerSendCommand t m]
                  else (case br (issued s) (DebuggerAttach t) of
                          Resolves x \<Rightarrow> [DebuggerAttach t, DebuggerSendCommand t m]
                        | Throws e \<Rightarrow>
                            if e = [] then [DebuggerAttach t, DebuggerSendCommand t m]
                            else [DebuggerAttach t]))
   \<and> (has_domain (debuggerAttached s t) d \<longrightarrow> enableCDPDomain br t d s = (Already, s))
   \<and> (\<not> has_domain (debuggerAttached s t) d \<longrightarrow>
        issued (snd (enableCDPDomain br t d s)) = issued (snd (sendCDPCommand br t (d @ ''.enable'') s)))
   \<and> (is_attached s t \<and> \<not> has_domain (debuggerAttached s t) d
        \<and> br (issued s) (DebuggerSendCommand t (d @ ''.enable'')) = Resolves r \<longrightarrow>
        issued (snd (enableCDPDomain br t d s)) = issued s @ [DebuggerSendCommand t (d @ ''.enable'')]
        \<and> is_attached (snd (enableCDPDomain br t d s)) t
        \<and> has_domain (debuggerAttached (snd (enableCDPDomain br t d s)) t) d)
   \<and> (is_attached s t \<and> has_domain (debuggerAttached s t) d \<longrightarrow>
        is_attached (snd (sendCDPCommand br t m s)) t
        \<and> has_domain (debuggerAttached (snd (sendCDPCommand br t m s)) t) d
        \<and> is_attached (snd (enableCDPDomain br t d' s)) t
        \<and> has_domain (debuggerAttached (snd (enableCDPDomain br t d' s)) t) d)"
proof -
  have 2: "has_domain (debuggerAttached s t) d \<longrightarrow> enableCDPDomain br t d s = (Already, s)"
    by (simp add: enableCDPDomain_def)
  have 3: "\<not> has_domain (debuggerAttached s t) d \<longrightarrow>
        issued (snd (enableCDPDomain br t d s)) = issued (snd (sendCDPCommand br t (d @ ''.enable'') s))"
    by (simp add: issued_enableCDPDomain)
  have 4: "is_attached s t \<and> \<not> has_domain (debuggerAttached s t) d
        \<and> br (issued s) (DebuggerSendCommand t (d @ ''.enable'')) = Resolves r \<longrightarrow>
        issued (snd (enableCDPDomain br t d s)) = issued s @ [DebuggerSendCommand t (d @ ''.enable'')]
        \<and> is_attached (snd (enableCDPDomain br t d s)) t
        \<and> has_domain (debuggerAttached (snd (enableCDPDomain br t d s)) t) d"
    using enableCDPDomain_accepted [of s t d br r] by blast
  have 5: "is_attached s t \<and> has_domain (debuggerAttached s t) d \<longrightarrow>
        is_attached (snd (sendCDPCommand br t m s)) t
        \<and> has_domain (debuggerAttached (snd (sendCDPCommand br t m s)) t) d
        \<and> is_attached (snd (enableCDPDomain br t d' s)) t
        \<and> has_domain (debuggerAttached (snd (enableCDPDomain br t d' s)) t) d"
    using enableCDPDomain_keeps [of s t d br d'] sessions_sendCDPCommand [of s t br m]
    by (simp add: is_attached_def)
  show ?thesis
    by (intro conjI issued_sendCDPCommand 2 3 4 5)
qed

lemma attached7_eval:
  "attached7 = fresh_agent\<lparr> issued := [DebuggerAttach 7],
     debuggerAttached := [7 \<mapsto> \<lparr> attached = True, domains = {} \<rparr>] \<rparr>"
  by (simp add: attached7_def attachDebugger_def is_attached_def fresh_agent_def cooperative_def)

theorem enableCDPDomain_once_witness:
  "is_attached attached7 7
   \<and> \<not> has_domain (debuggerAttached attached7 7) ''Network''
   \<and> issued (snd (enableCDPDomain cooperative 7 ''Network'' attached7))
       = [DebuggerAttach 7, DebuggerSendCommand 7 ''Network.enable'']
   \<and> has_domain (debuggerAttached (snd (enableCDPDomain cooperative 7 ''Network'' attached7)) 7) ''Network''
   \<and> has_domain (debuggerAttached (snd (sendCDPCommand cooperative 7 ''Network.getAllCookies''
          (snd (enableCDPDomain cooperative 7 ''Network'' attached7)))) 7) ''Network''
   \<and> enableCDPDomain cooperative 7 ''Network''
         (snd (sendCDPCommand cooperative 7 ''Network.getAllCookies''
            (snd (enableCDPDomain cooperative 7 ''Network'' attached7))))
       = (Already, snd (sendCDPCommand cooperative 7 ''Network.getAllCookies''
            (snd (enableCDPDomain cooperative 7 ''Network'' attached7))))"
proof -
  let ?e = "snd (enableCDPDomain cooperative 7 ''Network'' attached7)"
  let ?c = "snd (sendCDPCommand cooperative 7 ''Network.getAllCookies'' ?e)"
  note t1 = enableCDPDomain_once [where br = cooperative and t = 7 and s = attached7
      and d = "''Network''" and r = "''{}''"]
  note t2 = enableCDPDomain_once [where br = cooperative and t = 7 and s = ?e
      and d = "''Network''" and m = "''Network.getAllCookies''"]
  note t3 = enableCDPDomain_once [where br = cooperative and t = 7 and s = ?c and d = "''Network''"]
  have a: "is_attached attached7 7"
    by (simp add: attached7_eval is_attached_def fresh_agent_def)
  have b: "\<not> has_domain (debuggerAttached attached7 7) ''Network''"
    by (simp add: attached7_eval has_domain_def fresh_agent_def)
  have c: "cooperative (issued attached7) (DebuggerSendCommand 7 (''Network'' @ ''.enable'')) = Resolves ''{}''"
    by (simp add: cooperative_def)
  have i: "issued attached7 = [DebuggerAttach 7]"
    by (simp add: attached7_eval fresh_agent_def)
  have 1: "issued ?e = [DebuggerAttach 7, DebuggerSendCommand 7 ''Network.enable'']"
      "is_attached ?e 7" "has_domain (debuggerAttached ?e 7) ''Network''"
    using t1 a b c i by simp_all
  have 2: "is_attached ?c 7" "has_domain (debuggerAttached ?c 7) ''Network''"
    using t2 1(2,3) by blast+
  have 3: "enableCDPDomain cooperative 7 ''Network'' ?c = (Already, ?c)"
    using t3 2(2) by blast
  show ?thesis
    using a b 1 2 3 by simp
qed

text \<open>
  The case the theorem says nothing about: when \<open>enableCDPDomain\<close> itself causes the attach,
  the domain is not recorded (the entry was read before it existed), and a second call
  issues the enable again.
\<close>

lemma enableCDPDomain_after_auto_attach:
  "issued (snd (enableCDPDomain cooperative 7 ''Network''
      (snd (enableCDPDomain cooperative 7 ''Network'' fresh_agent))))
   = [DebuggerAttach 7, DebuggerSendCommand 7 ''Network.enable'', DebuggerSendCommand 7 ''Network.enable'']"
proof -
  have 1: "snd (enableCDPDomain cooperative 7 ''Network'' fresh_agent)
      = fresh_agent\<lparr> issued := [DebuggerAttach 7, DebuggerSendCommand 7 ''Network.enable''],
          debuggerAttached := [7 \<mapsto> \<lparr> attached = True, domains = {} \<rparr>] \<rparr>"
    by (simp add: enableCDPDomain_def sendCDPCommand_def attachDebugger_def issueCommand_def
        is_attached_def is_error_def has_domain_def mark_enabled_def fresh_agent_def cooperative_def)
  show ?thesis
    unfolding 1
    by (simp add: enableCDPDomain_def sendCDPCommand_def issueCommand_def
        is_attached_def is_error_def has_domain_def mark_enabled_def fresh_agent_def cooperative_def)
qed

section \<open>Properties of the dispatcher\<close>

lemma noTab_subset: "set noTabRequired \<subseteq> set noAgentRequired"
  by (simp add: noTabRequired_def noAgentRequired_def)

text \<open>
  C7 as stated fails: \<open>browser_click\<close> is not in \<open>noTabRequired\<close>, yet with no active tab and
  the agent disabled the call returns the permission error, not the no-target error: the
  permission check comes first.
\<close>

theorem executeToolCall_permission_first:
  "executeToolCall cooperative quiet unknown_tool None ''browser_click'' no_params
      (fresh_agent\<lparr> agentEnabled := False \<rparr>)
     = (Error ''Agent control is disabled'', fresh_agent\<lparr> agentEnabled := False \<rparr>)
   \<and> ''browser_click'' \<notin> set noTabRequired"
  by (simp add: executeToolCall_def noAgentRequired_def noTabRequired_def)

text \<open>
  C7, as the code has it.  With the agent disabled, a tool outside \<open>noAgentRequired\<close> is
  refused with the permission error, whatever the tab.  A tool outside \<open>noTabRequired\<close>
  that passes the permission check (the agent is enabled, or the tool is in
  \<open>noAgentRequired\<close>) is refused with the no-target error when there is no active tab.  In
  both refusals the state is returned as it was and neither the browser nor any tool
  handler is consulted.  A tool in \<open>noAgentRequired\<close> reaches the switch with the agent
  disabled, and a tool in \<open>noTabRequired\<close> (all of which are in \<open>noAgentRequired\<close>) reaches
  it whatever the agent setting and the active tab.
\<close>

theorem executeToolCall_gates:
  "(\<not> agentEnabled s \<and> tool \<notin> set noAgentRequired \<longrightarrow>
      executeToolCall br env rest activeTab tool ps s = (Error ''Agent control is disabled'', s))
   \<and> ((agentEnabled s \<or> tool \<in> set noAgentRequired) \<and> tool \<notin> set noTabRequired \<longrightarrow>
      executeToolCall br env rest None tool ps s = (Error ''No active tab'', s))
   \<and> (tool \<in> set noAgentRequired \<and> tool \<notin> set noTabRequired \<longrightarrow>
      executeToolCall br env rest (Some tab) tool ps s = switch br env rest tool (Some tab) ps s)
   \<and> (tool \<in> set noTabRequired \<longrightarrow>
      executeToolCall br env rest activeTab tool ps s = switch br env rest tool None ps s)"
  using noTab_subset by (auto simp add: executeToolCall_def)

theorem executeToolCall_gates_witness:
  "executeToolCall cooperative quiet unknown_tool (Some 3) ''browser_click'' no_params
      (fresh_agent\<lparr> agentEnabled := False \<rparr>)
     = (Error ''Agent control is disabled'', fresh_agent\<lparr> agentEnabled := False \<rparr>)
   \<and> executeToolCall cooperative quiet unknown_tool None ''browser_click'' no_params fresh_agent
     = (Error ''No active tab'', fresh_agent)
   \<and> executeToolCall cooperative quiet unknown_tool None ''cdp_attach'' no_params
        (fresh_agent\<lparr> agentEnabled := False \<rparr>)
     = (Error ''No active tab'', fresh_agent\<lparr> agentEnabled := False \<rparr>)
   \<and> executeToolCall cooperative quiet unknown_tool None ''list_extensions'' no_params
        (fresh_agent\<lparr> agentEnabled := False \<rparr>)
     = (Error ''Unknown tool: list_extensions'', fresh_agent\<lparr> agentEnabled := False \<rparr>)"
proof -
  let ?off = "fresh_agent\<lparr> agentEnabled := False \<rparr>"
  have off: "\<not> agentEnabled ?off" and on: "agentEnabled fresh_agent"
    by (simp_all add: fresh_agent_def)
  have m: "''browser_click'' \<notin> set noAgentRequired" "''browser_click'' \<notin> set noTabRequired"
    "''cdp_attach'' \<in> set noAgentRequired" "''cdp_attach'' \<notin> set noTabRequired"
    "''list_extensions'' \<in> set noTabRequired"
    by (simp_all add: noAgentRequired_def noTabRequired_def)
  have sw: "switch cooperative quiet unknown_tool ''list_extensions'' None no_params ?off
      = (Error ''Unknown tool: list_extensions'', ?off)"
    by (simp add: switch_def unknown_tool_def)
  show ?thesis
    using executeToolCall_gates [of ?off "''browser_click''" cooperative quiet unknown_tool "Some 3" no_params]
      executeToolCall_gates [of fresh_agent "''browser_click''" cooperative quiet unknown_tool None no_params]
      executeToolCall_gates [of ?off "''cdp_attach''" cooperative quiet unknown_tool None no_params]
      executeToolCall_gates [of ?off "''list_extensions''" cooperative quiet unknown_tool None no_params]
      off on m sw
    by simp
qed

section \<open>Properties of the error store\<close>

lemma store_of_attach [simp]: "extensionErrorStore (snd (attachDebugger br t s)) = extensionErrorStore s"
  by (simp add: attachDebugger_def split: outcome.splits)

lemma store_of_detach [simp]: "extensionErrorStore (snd (detachDebugger br t s)) = extensionErrorStore s"
  by (simp add: detachDebugger_def split: outcome.splits)

lemma store_of_issue [simp]: "extensionErrorStore (snd (issueCommand br t m s)) = extensionErrorStore s"
  by (simp add: issueCommand_def split: outcome.splits)

lemma store_of_send [simp]: "extensionErrorStore (snd (sendCDPCommand br t m s)) = extensionErrorStore s"
proof (cases "attachDebugger br t s")
  case (Pair r s1)
  have "extensionErrorStore s1 = extensionErrorStore s"
    using store_of_attach [of br t s] Pair by simp
  moreover have "extensionErrorStore (snd (issueCommand br t m s1)) = extensionErrorStore s1"
    by simp
  ultimately show ?thesis
    using Pair by (simp add: sendCDPCommand_def)
qed

lemma store_of_onEvent [simp]: "extensionErrorStore (onEvent t ev s) = extensionErrorStore s"
  by (cases ev) (simp_all split: option.splits)

lemma store_of_onRemoved [simp]: "extensionErrorStore (onRemoved t s) = extensionErrorStore s"
  by (simp add: onRemoved_def Let_def)

lemma errors_upd_push_error:
  "store_errors (upd_store e (push_error x) s) e' =
     store_errors s e' @ (if e = e' \<and> has_store s e then [x] else [])"
  by (auto simp add: store_errors_def upd_store_def push_error_def has_store_def split: option.splits)

lemma console_upd_push_error:
  "store_console (upd_store e (push_error x) s) e' = store_console s e'"
  by (auto simp add: store_console_def upd_store_def push_error_def split: option.splits)

lemma errors_upd_push_console:
  "store_errors (upd_store e (push_console x) s) e' = store_errors s e'"
  by (auto simp add: store_errors_def upd_store_def push_console_def split: option.splits)

lemma console_upd_push_console:
  "store_console (upd_store e (push_console x) s) e' =
     store_console s e' @ (if e = e' \<and> has_store s e then [x] else [])"
  by (auto simp add: store_console_def upd_store_def push_console_def has_store_def split: option.splits)

lemma dom_upd_store [simp]: "has_store (upd_store e f s) e' = has_store s e'"
  by (auto simp add: upd_store_def has_store_def split: option.splits)

lemma errors_onEvent [simp]: "store_errors (onEvent t ev s) e = store_errors s e"
  by (simp add: store_errors_def)

lemma console_onEvent [simp]: "store_console (onEvent t ev s) e = store_console s e"
  by (simp add: store_console_def)

lemma dom_onEvent [simp]: "has_store (onEvent t ev s) e = has_store s e"
  by (simp add: has_store_def)

lemma dom_errorHandler [simp]: "has_store (errorHandler e tab x s) e' = has_store s e'"
  by (cases x, cases "snd x") auto

lemma window_errors_Cons: "window_errors tab (x # xs) = window_errors tab [x] @ window_errors tab xs"
  by (cases x, cases "snd x") auto

lemma window_console_Cons: "window_console tab (x # xs) = window_console tab [x] @ window_console tab xs"
  by (cases x, cases "snd x") auto

lemma errors_errorHandler:
  "store_errors (errorHandler e tab x s) e' =
     store_errors s e' @ (if e = e' \<and> has_store s e then window_errors tab [x] else [])"
  by (cases x, cases "snd x")
    (auto simp add: errors_upd_push_error errors_upd_push_console)

lemma console_errorHandler:
  "store_console (errorHandler e tab x s) e' =
     store_console s e' @ (if e = e' \<and> has_store s e then window_console tab [x] else [])"
  by (cases x, cases "snd x")
    (auto simp add: console_upd_push_error console_upd_push_console)

lemma errors_deliver:
  "store_errors (deliver e tab evs s) e' =
     store_errors s e' @ (if e = e' \<and> has_store s e then window_errors tab evs else [])"
proof (induction evs arbitrary: s)
  case Nil
  then show ?case by simp
next
  case (Cons x xs)
  show ?case
    using window_errors_Cons [of tab x xs]
    by (auto simp add: Cons.IH errors_errorHandler simp del: onEvent.simps errorHandler.simps window_errors.simps)
qed

lemma console_deliver:
  "store_console (deliver e tab evs s) e' =
     store_console s e' @ (if e = e' \<and> has_store s e then window_console tab evs else [])"
proof (induction evs arbitrary: s)
  case Nil
  then show ?case by simp
next
  case (Cons x xs)
  show ?case
    using window_console_Cons [of tab x xs]
    by (auto simp add: Cons.IH console_errorHandler simp del: onEvent.simps errorHandler.simps window_console.simps)
qed

lemma dom_deliver [simp]: "has_store (deliver e tab evs s) e' = has_store s e'"
  by (induction evs arbitrary: s) (simp_all del: onEvent.simps errorHandler.simps)

lemma errors_push_probe:
  "store_errors (push_probe e vs s) e' =
     store_errors s e' @ (if e = e' \<and> has_store s e then map (Pair ''runtime'') vs else [])"
  by (induction vs arbitrary: s) (auto simp add: errors_upd_push_error)

lemma console_push_probe [simp]: "store_console (push_probe e vs s) e' = store_console s e'"
  by (induction vs arbitrary: s) (simp_all add: console_upd_push_error)

lemma errors_init_store [simp]: "store_errors (init_store e tab s) e' = store_errors s e'"
  by (auto simp add: init_store_def store_errors_def upd_store_def has_store_def Let_def split: option.splits)

lemma console_init_store [simp]: "store_console (init_store e tab s) e' = store_console s e'"
  by (auto simp add: init_store_def store_console_def upd_store_def has_store_def Let_def split: option.splits)

lemma dom_init_store [simp]: "has_store (init_store e tab s) e"
  by (auto simp add: init_store_def upd_store_def has_store_def Let_def split: option.splits)

lemma errors_cong: "extensionErrorStore s = extensionErrorStore s' \<Longrightarrow> store_errors s e = store_errors s' e"
  by (simp add: store_errors_def)

lemma console_cong: "extensionErrorStore s = extensionErrorStore s' \<Longrightarrow> store_console s e = store_console s' e"
  by (simp add: store_console_def)

lemma has_store_cong: "extensionErrorStore s = extensionErrorStore s' \<Longrightarrow> has_store s e = has_store s' e"
  by (simp add: has_store_def)

lemma capture_window_errors_exact:
  "store_errors (capture_window br env e s1) e' =
     store_errors s1 e' @
       (if e = e'
        then window_errors (opened env) (window env) @
          (case probe_reply br env e s1 of
             CommandResult _ \<Rightarrow> map (Pair ''runtime'') (probe env) | _ \<Rightarrow> [])
        else [])"
proof -
  let ?tab = "opened env"
  let ?s2 = "snd (sendCDPCommand br ?tab ''Console.enable'' s1)"
  let ?s3 = "snd (sendCDPCommand br ?tab ''Runtime.enable'' ?s2)"
  let ?s4 = "init_store e ?tab ?s3"
  let ?s5 = "deliver e ?tab (window env) ?s4"
  obtain r s6 where ev: "sendCDPCommand br ?tab ''Runtime.evaluate'' ?s5 = (r, s6)"
    by (cases "sendCDPCommand br ?tab ''Runtime.evaluate'' ?s5")
  have pr: "probe_reply br env e s1 = r"
    by (simp add: probe_reply_def ev)
  have e6: "extensionErrorStore s6 = extensionErrorStore ?s5"
    using store_of_send [of br ?tab "''Runtime.evaluate''" ?s5] ev by simp
  have e3: "extensionErrorStore ?s3 = extensionErrorStore s1"
    by simp
  have a5: "store_errors ?s5 e' = store_errors s1 e' @ (if e = e' then window_errors ?tab (window env) else [])"
  proof -
    have "store_errors ?s4 e' = store_errors s1 e'"
      using errors_cong [OF e3, of e'] by (simp only: errors_init_store)
    moreover have "has_store ?s4 e" by (rule dom_init_store)
    ultimately show ?thesis by (simp only: errors_deliver) simp
  qed
  have h6: "has_store s6 e"
    using has_store_cong [OF e6, of e] dom_deliver [of e ?tab "window env" ?s4 e] dom_init_store [of e ?tab ?s3]
    by (simp only:)
  have a6: "store_errors s6 e' = store_errors ?s5 e'"
    by (rule errors_cong [OF e6])
  let ?s7 = "case r of CommandResult _ \<Rightarrow> push_probe e (probe env) s6 | _ \<Rightarrow> s6"
  have a7: "store_errors ?s7 e' = store_errors s6 e' @
      (if e = e' then (case r of CommandResult _ \<Rightarrow> map (Pair ''runtime'') (probe env) | _ \<Rightarrow> []) else [])"
    using h6 by (cases r) (simp_all add: errors_push_probe)
  have a8: "store_errors (capture_window br env e s1) e' = store_errors ?s7 e'"
  proof -
    have "capture_window br env e s1 = (if closeTab env then snd (detachDebugger br ?tab ?s7) else ?s7)"
      unfolding capture_window_def Let_def ev by simp
    then show ?thesis
      using errors_cong [OF store_of_detach [of br ?tab ?s7], of e'] by simp
  qed
  show ?thesis
    unfolding a8 a7 a6 a5 pr by simp
qed

lemma capture_window_errors:
  "store_errors (capture_window br env e s1) e' =
       store_errors s1 e' @ (if e = e' then window_errors (opened env) (window env) else [])
   \<or> store_errors (capture_window br env e s1) e' =
       store_errors s1 e' @
         (if e = e' then window_errors (opened env) (window env) @ map (Pair ''runtime'') (probe env) else [])"
  unfolding capture_window_errors_exact by (cases "probe_reply br env e s1") auto

lemma capture_window_console:
  "store_console (capture_window br env e s1) e' =
     store_console s1 e' @ (if e = e' then window_console (opened env) (window env) else [])"
proof -
  let ?tab = "opened env"
  let ?s2 = "snd (sendCDPCommand br ?tab ''Console.enable'' s1)"
  let ?s3 = "snd (sendCDPCommand br ?tab ''Runtime.enable'' ?s2)"
  let ?s4 = "init_store e ?tab ?s3"
  let ?s5 = "deliver e ?tab (window env) ?s4"
  obtain r s6 where ev: "sendCDPCommand br ?tab ''Runtime.evaluate'' ?s5 = (r, s6)"
    by (cases "sendCDPCommand br ?tab ''Runtime.evaluate'' ?s5")
  have e6: "extensionErrorStore s6 = extensionErrorStore ?s5"
    using store_of_send [of br ?tab "''Runtime.evaluate''" ?s5] ev by simp
  have e3: "extensionErrorStore ?s3 = extensionErrorStore s1"
    by simp
  have a5: "store_console ?s5 e' = store_console s1 e' @ (if e = e' then window_console ?tab (window env) else [])"
  proof -
    have "store_console ?s4 e' = store_console s1 e'"
      using console_cong [OF e3, of e'] by (simp only: console_init_store)
    moreover have "has_store ?s4 e" by (rule dom_init_store)
    ultimately show ?thesis by (simp only: console_deliver) simp
  qed
  have a6: "store_console s6 e' = store_console ?s5 e'"
    by (rule console_cong [OF e6])
  let ?s7 = "case r of CommandResult _ \<Rightarrow> push_probe e (probe env) s6 | _ \<Rightarrow> s6"
  have a7: "store_console ?s7 e' = store_console s6 e'"
    by (cases r) simp_all
  have a8: "store_console (capture_window br env e s1) e' = store_console ?s7 e'"
  proof -
    have "capture_window br env e s1 = (if closeTab env then snd (detachDebugger br ?tab ?s7) else ?s7)"
      unfolding capture_window_def Let_def ev by simp
    then show ?thesis
      using console_cong [OF store_of_detach [of br ?tab ?s7], of e'] by simp
  qed
  show ?thesis
    unfolding a8 a7 a6 a5 by simp
qed

lemma capture_cases:
  "snd (captureExtensionErrors br env e s) = s
   \<or> snd (captureExtensionErrors br env e s) = snd (attachDebugger br (opened env) s)
   \<or> snd (captureExtensionErrors br env e s) = capture_window br env e (snd (attachDebugger br (opened env) s))"
  by (cases "attachDebugger br (opened env) s")
    (simp add: captureExtensionErrors_def Let_def split: lookup.splits option.splits)

lemma capture_errors_grow:
  "prefix (store_errors s e') (store_errors (snd (captureExtensionErrors br env e s)) e')"
proof -
  let ?a = "snd (attachDebugger br (opened env) s)"
  have a: "store_errors ?a e' = store_errors s e'"
    by (rule errors_cong) simp
  have "prefix (store_errors ?a e') (store_errors (capture_window br env e ?a) e')"
    using capture_window_errors [of br env e ?a e'] by auto
  then show ?thesis
    using capture_cases [of br env e s] a by auto
qed

lemma capture_console_grow:
  "prefix (store_console s e') (store_console (snd (captureExtensionErrors br env e s)) e')"
proof -
  let ?a = "snd (attachDebugger br (opened env) s)"
  have a: "store_console ?a e' = store_console s e'"
    by (rule console_cong) simp
  have "prefix (store_console ?a e') (store_console (capture_window br env e ?a) e')"
    by (simp add: capture_window_console)
  then show ?thesis
    using capture_cases [of br env e s] a by auto
qed

lemma capture_from_empty:
  assumes "\<not> has_store s e" and "fst (captureExtensionErrors br env e s) = Captured es cs"
  shows "store_errors (snd (captureExtensionErrors br env e s)) e = es"
    and "es = window_errors (opened env) (window env)
         \<or> es = window_errors (opened env) (window env) @ map (Pair ''runtime'') (probe env)"
    and "store_console (snd (captureExtensionErrors br env e s)) e = window_console (opened env) (window env)"
proof -
  obtain r s1 where at: "attachDebugger br (opened env) s = (r, s1)"
    by (cases "attachDebugger br (opened env) s")
  have s1: "extensionErrorStore s1 = extensionErrorStore s"
    using store_of_attach [of br "opened env" s] at by simp
  have z: "store_errors s1 e = []" "store_console s1 e = []"
    using assms(1) s1 by (simp_all add: store_errors_def store_console_def has_store_def)
  have c: "snd (captureExtensionErrors br env e s) = capture_window br env e s1
      \<and> es = store_errors (capture_window br env e s1) e"
    using assms(2) at
    by (auto simp add: captureExtensionErrors_def Let_def split: if_splits lookup.splits option.splits)
  show "store_errors (snd (captureExtensionErrors br env e s)) e = es"
    using c by simp
  show "es = window_errors (opened env) (window env)
         \<or> es = window_errors (opened env) (window env) @ map (Pair ''runtime'') (probe env)"
    using c capture_window_errors [of br env e s1 e] z by simp
  show "store_console (snd (captureExtensionErrors br env e s)) e = window_console (opened env) (window env)"
    using c z by (simp add: capture_window_console)
qed

lemma clear_tool:
  assumes "agentEnabled s" and "activeTab = Some t"
  shows "executeToolCall br env rest activeTab ''clear_extension_errors'' ps s =
     (Message (''Cleared errors for '' @ extensionId ps),
      s\<lparr> extensionErrorStore := (extensionErrorStore s)(extensionId ps := None) \<rparr>)"
  using assms by (simp add: executeToolCall_def switch_def noTabRequired_def)

text \<open>
  C8.  A capture only appends to the \<open>errors\<close> and \<open>console\<close> lists of every extension's
  store: what the store held is a prefix of what it holds afterwards.  Closing a tab and
  attaching or detaching the debugger leave the stores as they are.  The tool
  \<open>clear_extension_errors\<close>, with the agent enabled and an active tab, deletes the store of
  its extension and no other; the store of a capture that follows and runs to its end
  holds exactly the entries of that capture: the exceptions of the watched tab, followed
  by the values of the probe when the probe was answered.
\<close>

theorem error_store_append_only:
  "prefix (store_errors s e') (store_errors (snd (captureExtensionErrors br env e s)) e')
   \<and> prefix (store_console s e') (store_console (snd (captureExtensionErrors br env e s)) e')
   \<and> extensionErrorStore (onRemoved t s) = extensionErrorStore s
   \<and> extensionErrorStore (snd (attachDebugger br t s)) = extensionErrorStore s
   \<and> extensionErrorStore (snd (detachDebugger br t s)) = extensionErrorStore s
   \<and> (agentEnabled s \<longrightarrow>
        (let c = snd (executeToolCall br env rest (Some t) ''clear_extension_errors'' ps s);
             r = captureExtensionErrors br env (extensionId ps) c
         in extensionErrorStore c = (extensionErrorStore s)(extensionId ps := None)
            \<and> (\<forall>es cs. fst r = Captured es cs \<longrightarrow>
                  store_errors (snd r) (extensionId ps) = es
                  \<and> (es = window_errors (opened env) (window env)
                       \<or> es = window_errors (opened env) (window env) @ map (Pair ''runtime'') (probe env))
                  \<and> store_console (snd r) (extensionId ps) = window_console (opened env) (window env))))"
proof -
  have clear: "agentEnabled s \<Longrightarrow>
      snd (executeToolCall br env rest (Some t) ''clear_extension_errors'' ps s)
        = s\<lparr> extensionErrorStore := (extensionErrorStore s)(extensionId ps := None) \<rparr>"
    by (simp add: clear_tool)
  have gone: "\<not> has_store (s\<lparr> extensionErrorStore := (extensionErrorStore s)(extensionId ps := None) \<rparr>) (extensionId ps)"
    by (simp add: has_store_def)
  have after: "agentEnabled s \<longrightarrow>
        (let c = snd (executeToolCall br env rest (Some t) ''clear_extension_errors'' ps s);
             r = captureExtensionErrors br env (extensionId ps) c
         in extensionErrorStore c = (extensionErrorStore s)(extensionId ps := None)
            \<and> (\<forall>es cs. fst r = Captured es cs \<longrightarrow>
                  store_errors (snd r) (extensionId ps) = es
                  \<and> (es = window_errors (opened env) (window env)
                       \<or> es = window_errors (opened env) (window env) @ map (Pair ''runtime'') (probe env))
                  \<and> store_console (snd r) (extensionId ps) = window_console (opened env) (window env)))"
  proof
    assume en: "agentEnabled s"
    show "let c = snd (executeToolCall br env rest (Some t) ''clear_extension_errors'' ps s);
             r = captureExtensionErrors br env (extensionId ps) c
         in extensionErrorStore c = (extensionErrorStore s)(extensionId ps := None)
            \<and> (\<forall>es cs. fst r = Captured es cs \<longrightarrow>
                  store_errors (snd r) (extensionId ps) = es
                  \<and> (es = window_errors (opened env) (window env)
                       \<or> es = window_errors (opened env) (window env) @ map (Pair ''runtime'') (probe env))
                  \<and> store_console (snd r) (extensionId ps) = window_console (opened env) (window env))"
      unfolding Let_def clear [OF en]
      using capture_from_empty [OF gone, of br env] by simp
  qed
  show ?thesis
    using capture_errors_grow [of s e' br env e] capture_console_grow [of s e' br env e] after
    by simp
qed

lemma fst_send_cooperative: "fst (sendCDPCommand cooperative t m s) = CommandResult ''{}''"
  by (simp add: sendCDPCommand_def attachDebugger_def issueCommand_def cooperative_def is_error_def)

lemma probe_reply_cooperative: "probe_reply cooperative env e s = CommandResult ''{}''"
  by (simp only: probe_reply_def fst_send_cooperative)

lemma attach_cooperative_ok: "\<not> is_error (fst (attachDebugger cooperative t s))"
  by (simp add: attachDebugger_def cooperative_def is_error_def)

lemma capture_reply:
  assumes "e \<noteq> []" and "found env = Info \<and> create_throws env = None"
    and "\<not> is_error (fst (attachDebugger br (opened env) s))"
    and "remove_throws env = None"
  shows "captureExtensionErrors br env e s =
     (Captured (store_errors (capture_window br env e (snd (attachDebugger br (opened env) s))) e)
        (filter warning_or_error
           (store_console (capture_window br env e (snd (attachDebugger br (opened env) s))) e)),
      capture_window br env e (snd (attachDebugger br (opened env) s)))"
  using assms
  by (cases "attachDebugger br (opened env) s") (auto simp add: captureExtensionErrors_def Let_def)

lemma capture_cooperative_errors:
  assumes "e \<noteq> []" and "found env = Info \<and> create_throws env = None"
    and "remove_throws env = None"
  shows "store_errors (snd (captureExtensionErrors cooperative env e s)) e =
     store_errors s e @ window_errors (opened env) (window env) @ map (Pair ''runtime'') (probe env)"
proof -
  have "store_errors (snd (attachDebugger cooperative (opened env) s)) e = store_errors s e"
    by (rule errors_cong) simp
  then show ?thesis
    using capture_reply [OF assms(1,2) attach_cooperative_ok assms(3)]
    by (simp add: capture_window_errors_exact probe_reply_cooperative)
qed

theorem error_store_append_only_witness:
  "agentEnabled sample_agent
   \<and> store_errors sample_agent ''ext'' = [(''exception'', ''old'')]
   \<and> prefix (store_errors sample_agent ''ext'')
        (store_errors (snd (captureExtensionErrors cooperative noisy ''ext'' sample_agent)) ''ext'')
   \<and> store_errors (snd (captureExtensionErrors cooperative noisy ''ext'' sample_agent)) ''ext''
       = [(''exception'', ''old''), (''exception'', ''boom''), (''runtime'', ''late'')]
   \<and> fst (captureExtensionErrors cooperative noisy ''ext''
          (snd (executeToolCall cooperative noisy unknown_tool (Some 9) ''clear_extension_errors''
             ext_params sample_agent)))
       = Captured [(''exception'', ''boom''), (''runtime'', ''late'')] [(''warning'', ''slow'')]
   \<and> store_errors (snd (captureExtensionErrors cooperative noisy ''ext''
          (snd (executeToolCall cooperative noisy unknown_tool (Some 9) ''clear_extension_errors''
             ext_params sample_agent)))) ''ext''
       = [(''exception'', ''boom''), (''runtime'', ''late'')]"
proof -
  let ?c = "snd (executeToolCall cooperative noisy unknown_tool (Some 9) ''clear_extension_errors''
             ext_params sample_agent)"
  note t = error_store_append_only [of sample_agent "''ext''" cooperative noisy "''ext''" 9
      unknown_tool ext_params]
  have en: "agentEnabled sample_agent"
    by (simp add: sample_agent_def fresh_agent_def)
  have old: "store_errors sample_agent ''ext'' = [(''exception'', ''old'')]"
    by (simp add: sample_agent_def store_errors_def)
  have env: "''ext'' \<noteq> []" "found noisy = Info \<and> create_throws noisy = None"
    "remove_throws noisy = None"
    by (simp_all add: noisy_def)
  have w: "window_errors (opened noisy) (window noisy) = [(''exception'', ''boom'')]"
    "window_console (opened noisy) (window noisy) = [(''warning'', ''slow'')]"
    "map (Pair ''runtime'') (probe noisy) = [(''runtime'', ''late'')]"
    by (simp_all add: noisy_def)
  have one: "store_errors (snd (captureExtensionErrors cooperative noisy ''ext'' sample_agent)) ''ext''
       = [(''exception'', ''old''), (''exception'', ''boom''), (''runtime'', ''late'')]"
    by (simp add: capture_cooperative_errors [OF env] old w)
  have cl: "extensionErrorStore ?c = (extensionErrorStore sample_agent)(''ext'' := None)"
    using t en by (simp add: Let_def ext_params_def)
  have empty: "store_errors ?c ''ext'' = []" "store_console ?c ''ext'' = []"
    using cl by (simp_all add: store_errors_def store_console_def)
  have two: "store_errors (snd (captureExtensionErrors cooperative noisy ''ext'' ?c)) ''ext''
       = [(''exception'', ''boom''), (''runtime'', ''late'')]"
    by (simp add: capture_cooperative_errors [OF env] empty w)
  have con: "store_console (snd (captureExtensionErrors cooperative noisy ''ext'' ?c)) ''ext''
       = [(''warning'', ''slow'')]"
    using capture_reply [OF env(1,2) attach_cooperative_ok env(3), of ?c]
      console_cong [OF store_of_attach [of cooperative "opened noisy" ?c], of "''ext''"]
    by (simp add: capture_window_console empty w)
  have rep: "fst (captureExtensionErrors cooperative noisy ''ext'' ?c)
       = Captured [(''exception'', ''boom''), (''runtime'', ''late'')] [(''warning'', ''slow'')]"
    using capture_reply [OF env(1,2) attach_cooperative_ok env(3), of ?c] two con
    by (simp add: warning_or_error_def)
  show ?thesis
    using en old one two rep t by simp
qed

section \<open>Properties of the relay\<close>

subsection \<open>The loop, in closed form\<close>

lemma peer_upd [simp]:
  "peer (s\<lparr> requestQueue := x \<rparr>) = peer s"
  "peer (s\<lparr> isProcessingQueue := b \<rparr>) = peer s"
  "peer (logged a s) = peer s"
  "peer (s\<lparr> history := h \<rparr>) = peer s"
  by (simp_all add: peer_def logged_def split: option.splits)

lemma whileLoop_no_peer:
  "peer s = None \<Longrightarrow> requestQueue s = qs \<Longrightarrow>
   whileLoop fail qs s =
     s\<lparr> requestQueue := [], isProcessingQueue := False, awaiting := Idle,
        history := history s @ refused qs \<rparr>"
proof (induction qs arbitrary: s)
  case Nil
  then show ?case by (simp add: refused_def)
next
  case (Cons q qs)
  let ?s = "logged (Resolved (resolve q) (ErrorResult ''Not connected'')) (s\<lparr> requestQueue := qs \<rparr>)"
  have "whileLoop fail (q # qs) s = whileLoop fail qs ?s"
    using Cons.prems by simp
  also have "\<dots> = ?s\<lparr> requestQueue := [], isProcessingQueue := False, awaiting := Idle,
        history := history ?s @ refused qs \<rparr>"
    using Cons.prems by (intro Cons.IH) (simp_all add: logged_def)
  finally show ?case
    by (simp add: logged_def refused_def)
qed

lemma whileLoop_peer:
  "peer s = Some ws \<Longrightarrow> whileLoop fail (q # qs) s = dispatch fail ws q (s\<lparr> requestQueue := qs \<rparr>)"
  by simp

lemma answers_append [simp]: "answers c (h @ h') = answers c h @ answers c h'"
  by (induction c h rule: answers.induct) simp_all

lemma answers_refused [simp]: "length (answers c (refused qs)) = count_list (map resolve qs) c"
  by (induction qs) (simp_all add: refused_def)

lemma sf_refused [simp]: "foldl (sf_step b) x (refused qs) = x"
  by (induction qs arbitrary: x) (auto simp add: refused_def)

lemma sf_snoc: "foldl (sf_step b) x (h @ [a]) = sf_step b (foldl (sf_step b) x h) a"
  by simp

lemma hist_ok_logged:
  "hist_ok s \<Longrightarrow> sf_step True (True, map fst (pendingRequests s)) a = (True, out) \<Longrightarrow>
   foldl (sf_step True) (True, []) (history (logged a s)) = (True, out)"
  by (simp add: hist_ok_def logged_def)

lemma resume_wf:
  "isProcessingQueue s \<Longrightarrow> pendingRequests s = [] \<Longrightarrow> timers s = [] \<Longrightarrow> well_formed (resume q r s)"
  by (simp add: resume_def well_formed_def logged_def Let_def)

lemma resume_history: "history (resume q r s) = history s @ [Resolved (resolve q) r]"
  by (simp add: resume_def logged_def Let_def)

lemma resume_fields [simp]:
  "pendingRequests (resume q r s) = pendingRequests s"
  "timers (resume q r s) = timers s"
  "requestQueue (resume q r s) = requestQueue s"
  "callers (resume q r s) = callers s"
  "requestId (resume q r s) = requestId s"
  "chromeClient (resume q r s) = chromeClient s"
  "openSockets (resume q r s) = openSockets s"
  by (simp_all add: resume_def logged_def Let_def)

lemma resume_waiting: "waiting (resume q r s) = map resolve (requestQueue s)"
  by (simp add: resume_def logged_def Let_def waiting_def in_flight_def)

lemma resume_awaiting:
  "awaiting (resume q r s) = (if requestQueue s \<noteq> [] then AwaitDelay 50 else Idle)"
  by (simp add: resume_def logged_def Let_def)

lemma dispatch_sent:
  "dispatch None ws q s =
     s\<lparr> requestId := Suc (requestId s), timers := timers s @ [(Suc (requestId s), 30000)],
        pendingRequests := AList.update (Suc (requestId s)) (Suc (requestId s)) (pendingRequests s),
        awaiting := AwaitResult (Suc (requestId s)) q,
        history := history s @ [Sent ws (Suc (requestId s)) (name q) (args q)] \<rparr>"
  by (simp add: dispatch_def Let_def logged_def)

lemma dispatch_failed:
  "pendingRequests s = [] \<Longrightarrow> timers s = [] \<Longrightarrow>
   dispatch (Some e) ws q s =
     resume q (ErrorResult (''Send failed: '' @ e))
       (s\<lparr> requestId := Suc (requestId s), timers := [], pendingRequests := [],
           awaiting := AwaitResult (Suc (requestId s)) q,
           history := history s @ [SendFailed (Suc (requestId s))] \<rparr>)"
  by (simp add: dispatch_def Let_def logged_def clearTimeout_def res_def)
    (rule arg_cong [where f = "resume q _"], rule relay.equality, simp_all)

subsection \<open>How a call ends\<close>

lemma ended_wf: "isProcessingQueue s \<Longrightarrow> well_formed (ended a q r s)"
  unfolding ended_def by (rule resume_wf) simp_all

lemma ended_fields [simp]:
  "pendingRequests (ended a q r s) = []"
  "timers (ended a q r s) = []"
  "requestQueue (ended a q r s) = requestQueue s"
  "callers (ended a q r s) = callers s"
  "requestId (ended a q r s) = requestId s"
  "chromeClient (ended a q r s) = chromeClient s"
  "openSockets (ended a q r s) = openSockets s"
  "history (ended a q r s) = history s @ [a, Resolved (resolve q) r]"
  "waiting (ended a q r s) = map resolve (requestQueue s)"
  "awaiting (ended a q r s) = (if requestQueue s \<noteq> [] then AwaitDelay 50 else Idle)"
  by (simp_all add: ended_def resume_history resume_waiting resume_awaiting)

lemma dispatch_failed':
  assumes "pendingRequests s = []" and "timers s = []"
  shows "dispatch (Some e) ws q s =
     ended (SendFailed (Suc (requestId s))) q (ErrorResult (''Send failed: '' @ e))
       (s\<lparr> requestId := Suc (requestId s) \<rparr>)"
  unfolding dispatch_failed [OF assms] ended_def resume_def Let_def logged_def
  by (auto intro!: relay.equality)

lemma onToolResult_ended:
  assumes "awaiting s = AwaitResult i q" and "pendingRequests s = [(i, i)]" and "timers s = [(i, d)]"
  shows "onToolResult i r s = ended (Received i) q r s"
  using assms
  by (auto simp add: onToolResult_def callback_def res_def clearTimeout_def ended_def resume_def
      Let_def logged_def intro!: relay.equality)

lemma onTimeout_ended:
  assumes "awaiting s = AwaitResult i q" and "pendingRequests s = [(i, i)]" and "timers s = [(i, d)]"
  shows "onTimeout i s = ended (TimedOut i) q (ErrorResult ''Timeout'') s"
  using assms
  by (auto simp add: onTimeout_def res_def clearTimeout_def ended_def resume_def
      Let_def logged_def intro!: relay.equality)

lemma onClose_ended:
  assumes "awaiting s = AwaitResult i q" and "pendingRequests s = [(i, i)]" and "timers s = [(i, d)]"
    and "chromeClient s = Some ws"
  shows "onClose ws s = ended (Dropped i) q (ErrorResult ''Connection closed'')
     (s\<lparr> openSockets := removeAll ws (openSockets s), chromeClient := None \<rparr>)"
  using assms
  by (auto simp add: onClose_def callback_def res_def clearTimeout_def ended_def resume_def
      Let_def logged_def intro!: relay.equality)

lemma onClose_idle:
  assumes "pendingRequests s = []" and "chromeClient s = Some ws"
  shows "onClose ws s = s\<lparr> openSockets := removeAll ws (openSockets s), chromeClient := None \<rparr>"
  using assms by (auto simp add: onClose_def Let_def intro!: relay.equality)

lemma onClose_other:
  assumes "chromeClient s \<noteq> Some ws"
  shows "onClose ws s = s\<lparr> openSockets := removeAll ws (openSockets s) \<rparr>"
  using assms unfolding onClose_def Let_def by simp

subsection \<open>The invariant holds in every reachable state\<close>

lemma tickets_ok_ticket: "tickets_ok s = (\<forall>c. ticket s c = (if c < callers s then 1 else 0))"
  by (simp add: tickets_ok_def ticket_def)

lemma tickets_ok_same:
  "tickets_ok s \<Longrightarrow> callers s' = callers s \<Longrightarrow> (\<And>c. ticket s' c = ticket s c) \<Longrightarrow> tickets_ok s'"
  by (simp add: tickets_ok_ticket)

lemma waiting_AwaitResult:
  "awaiting s = AwaitResult i q \<Longrightarrow> waiting s = resolve q # map resolve (requestQueue s)"
  by (simp add: waiting_def in_flight_def)

lemma waiting_ready: "ready s \<Longrightarrow> waiting s = map resolve (requestQueue s)"
  by (simp add: waiting_def in_flight_def ready_def split: loop.splits)

lemma ticket_ended:
  "awaiting s = AwaitResult i q \<Longrightarrow> a = Received i \<or> a = TimedOut i \<or> a = Dropped i \<Longrightarrow>
   ticket (ended a q r s) c = ticket s c"
  by (auto simp add: ticket_def waiting_AwaitResult)

lemma inv_env [simp]:
  "relay_inv (s\<lparr> openSockets := x \<rparr>) = relay_inv s"
  "relay_inv (s\<lparr> chromeClient := y \<rparr>) = relay_inv s"
  by (simp_all add: relay_inv_def well_formed_def hist_ok_def tickets_ok_def waiting_def in_flight_def
      cong: loop.case_cong)

lemma inv_init: "relay_inv init"
  by (simp add: relay_inv_def well_formed_def hist_ok_def tickets_ok_def waiting_def in_flight_def init_def)

lemma inv_ended:
  assumes "relay_inv s" and "awaiting s = AwaitResult i q"
    and "a = Received i \<or> a = TimedOut i \<or> a = Dropped i"
  shows "relay_inv (ended a q r s)"
proof -
  have w: "pendingRequests s = [(i, i)]" "isProcessingQueue s"
    using assms(1,2) by (simp_all add: relay_inv_def well_formed_def)
  have h: "foldl (sf_step True) (True, []) (history s) = (True, [i])"
    using assms(1) w by (simp add: relay_inv_def hist_ok_def)
  have 1: "well_formed (ended a q r s)"
    using w(2) by (rule ended_wf)
  have 2: "hist_ok (ended a q r s)"
    using assms(3) h by (auto simp add: hist_ok_def)
  have t: "tickets_ok s"
    using assms(1) by (simp add: relay_inv_def)
  have 3: "tickets_ok (ended a q r s)"
  proof (rule tickets_ok_same [OF t])
    show "callers (ended a q r s) = callers s" by simp
    show "ticket (ended a q r s) c = ticket s c" for c
      using assms(2,3) by (rule ticket_ended)
  qed
  show ?thesis
    using 1 2 3 by (simp add: relay_inv_def)
qed

lemma inv_refused:
  assumes "ready s" and "hist_ok s" and "tickets_ok s"
  shows "relay_inv (s\<lparr> requestQueue := [], isProcessingQueue := False, awaiting := Idle,
        history := history s @ refused (requestQueue s) \<rparr>)"
    (is "relay_inv ?s")
proof -
  have 1: "well_formed ?s"
    using assms(1) by (simp add: well_formed_def ready_def)
  have 2: "hist_ok ?s"
    using assms(1,2) by (simp add: hist_ok_def ready_def)
  have e: "ticket ?s c = ticket s c" for c
    by (simp add: ticket_def waiting_ready [OF assms(1)]) (simp add: waiting_def in_flight_def)
  have 3: "tickets_ok ?s"
    by (rule tickets_ok_same [OF assms(3) _ e]) simp
  show ?thesis
    using 1 2 3 by (simp add: relay_inv_def)
qed

lemma inv_dispatch:
  assumes "ready s" and "hist_ok s" and "tickets_ok s" and "requestQueue s = q # qs"
  shows "relay_inv (dispatch fail ws q (s\<lparr> requestQueue := qs \<rparr>))"
proof -
  have p: "pendingRequests s = []" "timers s = []" "isProcessingQueue s"
    using assms(1) by (simp_all add: ready_def)
  have h: "foldl (sf_step True) (True, []) (history s) = (True, [])"
    using assms(2) p by (simp add: hist_ok_def)
  have t: "ticket s c = length (answers c (history s)) + count_list (map resolve (q # qs)) c" for c
    by (simp add: ticket_def waiting_ready [OF assms(1)] assms(4))
  show ?thesis
  proof (cases fail)
    case None
    let ?s = "dispatch None ws q (s\<lparr> requestQueue := qs \<rparr>)"
    have 1: "well_formed ?s"
      using p by (simp add: dispatch_sent well_formed_def)
    have 2: "hist_ok ?s"
      using h p by (simp add: dispatch_sent hist_ok_def)
    have e: "ticket ?s c = ticket s c" for c
      unfolding t by (simp add: dispatch_sent ticket_def waiting_def in_flight_def)
    have 3: "tickets_ok ?s"
      by (rule tickets_ok_same [OF assms(3) _ e]) (simp add: dispatch_sent)
    show ?thesis
      using 1 2 3 by (simp add: relay_inv_def None)
  next
    case (Some e)
    let ?s = "s\<lparr> requestQueue := qs, requestId := Suc (requestId s) \<rparr>"
    let ?a = "SendFailed (Suc (requestId s))"
    let ?r = "ErrorResult (''Send failed: '' @ e)"
    have d: "dispatch fail ws q (s\<lparr> requestQueue := qs \<rparr>) = ended ?a q ?r ?s"
      using p by (simp add: Some dispatch_failed')
    have 1: "well_formed (ended ?a q ?r ?s)"
      by (rule ended_wf) (simp add: p)
    have 2: "hist_ok (ended ?a q ?r ?s)"
      using h by (simp add: hist_ok_def)
    have e: "ticket (ended ?a q ?r ?s) c = ticket s c" for c
      unfolding t by (simp add: ticket_def)
    have 3: "tickets_ok (ended ?a q ?r ?s)"
      by (rule tickets_ok_same [OF assms(3) _ e]) simp
    show ?thesis
      unfolding d using 1 2 3 by (simp add: relay_inv_def)
  qed
qed

lemma inv_whileLoop:
  assumes "ready s" and "hist_ok s" and "tickets_ok s"
  shows "relay_inv (whileLoop fail (requestQueue s) s)"
proof (cases "peer s")
  case None
  show ?thesis
    unfolding whileLoop_no_peer [OF None refl] using assms by (rule inv_refused)
next
  case (Some ws)
  show ?thesis
  proof (cases "requestQueue s")
    case Nil
    have "s\<lparr> requestQueue := [], isProcessingQueue := False, awaiting := Idle,
        history := history s @ refused (requestQueue s) \<rparr> = s\<lparr> isProcessingQueue := False, awaiting := Idle \<rparr>"
      by (rule relay.equality) (simp_all add: Nil refused_def)
    then show ?thesis
      using inv_refused [OF assms] by (simp add: Nil)
  next
    case (Cons q qs)
    show ?thesis
      unfolding Cons whileLoop_peer [OF Some]
      using assms Cons by (rule inv_dispatch)
  qed
qed

lemma wf_cases:
  assumes "well_formed s"
  obtains (idle) "awaiting s = Idle" "pendingRequests s = []" "timers s = []"
      "\<not> isProcessingQueue s" "requestQueue s = []"
    | (flight) i q where "awaiting s = AwaitResult i q" "pendingRequests s = [(i, i)]"
      "timers s = [(i, 30000)]" "isProcessingQueue s" "i \<le> requestId s"
    | (delay) "awaiting s = AwaitDelay 50" "pendingRequests s = []" "timers s = []"
      "isProcessingQueue s" "requestQueue s \<noteq> []"
  using assms by (cases "awaiting s") (auto simp add: well_formed_def)

lemma inv_enqueue:
  assumes "relay_inv s"
  shows "hist_ok (s\<lparr> requestQueue := requestQueue s @ [\<lparr> name = nm, args = ar, resolve = callers s \<rparr>],
           callers := Suc (callers s) \<rparr>)" (is "hist_ok ?s")
    and "tickets_ok (s\<lparr> requestQueue := requestQueue s @ [\<lparr> name = nm, args = ar, resolve = callers s \<rparr>],
           callers := Suc (callers s) \<rparr>)"
proof -
  show "hist_ok ?s"
    using assms by (simp add: relay_inv_def hist_ok_def)
  have "ticket ?s c = ticket s c + (if c = callers s then 1 else 0)" for c
    by (simp add: ticket_def waiting_def in_flight_def)
  moreover have "ticket s c = (if c < callers s then 1 else 0)" for c
    using assms by (simp add: relay_inv_def tickets_ok_ticket)
  ultimately show "tickets_ok ?s"
    by (simp add: tickets_ok_ticket)
qed

lemma inv_callTool:
  assumes "relay_inv s"
  shows "relay_inv (callTool nm ar fail s)"
proof -
  let ?s = "s\<lparr> requestQueue := requestQueue s @ [\<lparr> name = nm, args = ar, resolve = callers s \<rparr>],
           callers := Suc (callers s) \<rparr>"
  have w: "well_formed s"
    using assms by (simp add: relay_inv_def)
  note e = inv_enqueue [OF assms, of nm ar]
  show ?thesis
  proof (cases "isProcessingQueue s")
    case True
    then have c: "callTool nm ar fail s = ?s"
      by (simp add: callTool_def processQueue_def)
    have "well_formed ?s"
      using w True by (cases rule: wf_cases) (simp_all add: well_formed_def)
    then show ?thesis
      unfolding c using e by (simp add: relay_inv_def)
  next
    case False
    let ?t = "?s\<lparr> isProcessingQueue := True \<rparr>"
    have r: "ready ?t"
      using w False by (cases rule: wf_cases) (simp_all add: ready_def)
    have h: "hist_ok ?t"
      using e(1) by (simp add: hist_ok_def)
    have t: "tickets_ok ?t"
      using e(2) by (simp add: tickets_ok_def waiting_def in_flight_def)
    have "callTool nm ar fail s = whileLoop fail (requestQueue ?t) ?t"
      using False by (simp add: callTool_def processQueue_def)
    then show ?thesis
      using inv_whileLoop [OF r h t] by simp
  qed
qed

lemma inv_onDelay:
  assumes "relay_inv s"
  shows "relay_inv (onDelay fail s)"
proof -
  have w: "well_formed s"
    using assms by (simp add: relay_inv_def)
  from w show ?thesis
  proof (cases rule: wf_cases)
    case delay
    then have "ready s"
      by (simp add: ready_def)
    then have "relay_inv (whileLoop fail (requestQueue s) s)"
      using assms by (intro inv_whileLoop) (simp_all add: relay_inv_def)
    then show ?thesis
      using delay by (simp add: onDelay_def)
  qed (simp_all add: onDelay_def assms)
qed

lemma inv_onToolResult:
  assumes "relay_inv s"
  shows "relay_inv (onToolResult i r s)"
proof -
  have w: "well_formed s"
    using assms by (simp add: relay_inv_def)
  from w show ?thesis
  proof (cases rule: wf_cases)
    case (flight j q)
    show ?thesis
    proof (cases "i = j")
      case True
      show ?thesis
        unfolding True onToolResult_ended [OF flight(1,2,3)]
        using assms flight(1) by (rule inv_ended) simp
    next
      case False
      then show ?thesis
        using assms flight by (simp add: onToolResult_def)
    qed
  qed (simp_all add: onToolResult_def assms)
qed

lemma inv_onTimeout:
  assumes "relay_inv s"
  shows "relay_inv (onTimeout i s)"
proof -
  have w: "well_formed s"
    using assms by (simp add: relay_inv_def)
  from w show ?thesis
  proof (cases rule: wf_cases)
    case (flight j q)
    show ?thesis
    proof (cases "i = j")
      case True
      show ?thesis
        unfolding True onTimeout_ended [OF flight(1,2,3)]
        using assms flight(1) by (rule inv_ended) simp
    next
      case False
      then show ?thesis
        using assms flight by (simp add: onTimeout_def)
    qed
  qed (simp_all add: onTimeout_def assms)
qed

lemma inv_onClose:
  assumes "relay_inv s"
  shows "relay_inv (onClose ws s)"
proof (cases "chromeClient s = Some ws")
  case False
  then show ?thesis
    using assms by (simp add: onClose_other)
next
  case True
  have w: "well_formed s"
    using assms by (simp add: relay_inv_def)
  from w show ?thesis
  proof (cases rule: wf_cases)
    case (flight j q)
    let ?s = "s\<lparr> openSockets := removeAll ws (openSockets s), chromeClient := None \<rparr>"
    have "relay_inv ?s"
      using assms by simp
    then have "relay_inv (ended (Dropped j) q (ErrorResult ''Connection closed'') ?s)"
      by (rule inv_ended) (simp_all add: flight)
    then show ?thesis
      unfolding onClose_ended [OF flight(1,2,3) True] .
  next
    case idle
    then show ?thesis
      using assms True by (simp add: onClose_idle)
  next
    case delay
    then show ?thesis
      using assms True by (simp add: onClose_idle)
  qed
qed

lemma inv_step: "relay_inv s \<Longrightarrow> relay_inv (step e s)"
  by (cases e) (simp_all add: inv_callTool inv_onClose inv_onToolResult inv_onTimeout inv_onDelay)

lemma run_snoc: "run (es @ [e]) s = step e (run es s)"
  by (simp add: run_def)

lemma inv_run: "relay_inv s \<Longrightarrow> relay_inv (run es s)"
  by (induction es rule: rev_induct) (simp_all add: run_snoc inv_step, simp add: run_def)

lemma inv_reachable: "relay_inv (run es init)"
  using inv_init by (rule inv_run)

subsection \<open>Ids are not reused\<close>

lemma stale_env [simp]:
  "stale i (s\<lparr> openSockets := x \<rparr>) = stale i s"
  "stale i (s\<lparr> chromeClient := y \<rparr>) = stale i s"
  by (simp_all add: stale_def)






subsection \<open>The timers empty the queue\<close>

lemma callers_whileLoop [simp]: "callers (whileLoop fail qs s) = callers s"
proof (induction qs arbitrary: s)
  case Nil
  then show ?case by simp
next
  case (Cons q qs)
  show ?case
    by (cases "peer (s\<lparr> requestQueue := qs \<rparr>)")
      (simp_all add: Cons.IH logged_def dispatch_def Let_def res_def resume_def clearTimeout_def
        split: option.splits)
qed

lemma fire_timers_idle:
  "relay_inv s \<Longrightarrow> fuel s \<le> n \<Longrightarrow>
   awaiting (fire_timers n s) = Idle \<and> relay_inv (fire_timers n s) \<and> callers (fire_timers n s) = callers s"
proof (induction n arbitrary: s)
  case 0
  then have "awaiting s = Idle"
    by (cases "awaiting s") (auto simp add: fuel_def relay_inv_def well_formed_def)
  then show ?case using 0 by simp
next
  case (Suc n)
  have w: "well_formed s"
    using Suc.prems(1) by (simp add: relay_inv_def)
  from w show ?case
  proof (cases rule: wf_cases)
    case idle
    then show ?thesis using Suc.prems by simp
  next
    case (flight i q)
    let ?s = "step (Timeout i) s"
    have e: "?s = ended (TimedOut i) q (ErrorResult ''Timeout'') s"
      by (simp add: onTimeout_ended [OF flight(1,2,3)])
    have "fuel ?s \<le> n"
      unfolding e using Suc.prems(2) flight(1) by (simp add: fuel_def)
    moreover have "relay_inv ?s"
      using Suc.prems(1) by (rule inv_step)
    ultimately have "awaiting (fire_timers n ?s) = Idle \<and> relay_inv (fire_timers n ?s)
        \<and> callers (fire_timers n ?s) = callers ?s"
      by (intro Suc.IH)
    moreover have "callers ?s = callers s"
      unfolding e by simp
    ultimately show ?thesis
      using flight(1) by simp
  next
    case delay
    let ?s = "step (DelayElapsed None) s"
    have r: "?s = whileLoop None (requestQueue s) s"
      using delay(1) by (simp add: onDelay_def)
    have f: "fuel ?s \<le> n"
    proof (cases "peer s")
      case None
      show ?thesis
        unfolding r whileLoop_no_peer [OF None refl] by (simp add: fuel_def)
    next
      case (Some ws)
      obtain q qs where q: "requestQueue s = q # qs"
        using delay(5) by (cases "requestQueue s") auto
      show ?thesis
        unfolding r q whileLoop_peer [OF Some] dispatch_sent
        using Suc.prems(2) delay(1) q by (simp add: fuel_def)
    qed
    moreover have "relay_inv ?s"
      using Suc.prems(1) by (rule inv_step)
    ultimately have "awaiting (fire_timers n ?s) = Idle \<and> relay_inv (fire_timers n ?s)
        \<and> callers (fire_timers n ?s) = callers ?s"
      by (intro Suc.IH)
    moreover have "callers ?s = callers s"
      unfolding r by simp
    ultimately show ?thesis
      using delay(1) by simp
  qed
qed

lemmas relay_defs = run_def callTool_def processQueue_def dispatch_def peer_def logged_def
  onClose_def onToolResult_def onTimeout_def onDelay_def callback_def res_def resume_def
  clearTimeout_def Let_def init_def

subsection \<open>Evaluating the sample runs\<close>

lemma two_calls_state:
  "run two_calls init =
     \<lparr> chromeClient = Some 1, openSockets = [1], pendingRequests = [(1, 1)], requestId = 1,
       requestQueue = [\<lparr> name = ''b'', args = ''{}'', resolve = 1 \<rparr>], isProcessingQueue = True,
       timers = [(1, 30000)], awaiting = AwaitResult 1 \<lparr> name = ''a'', args = ''{}'', resolve = 0 \<rparr>,
       callers = 2, history = [Sent 1 1 ''a'' ''{}''] \<rparr>"
  by (simp add: two_calls_def relay_defs)

lemma reachable_cases:
  assumes "s = run es init"
  obtains (idle) "awaiting s = Idle" "pendingRequests s = []" "timers s = []"
      "\<not> isProcessingQueue s" "requestQueue s = []"
    | (flight) i q where "awaiting s = AwaitResult i q" "pendingRequests s = [(i, i)]"
      "timers s = [(i, 30000)]" "isProcessingQueue s" "i \<le> requestId s"
    | (delay) "awaiting s = AwaitDelay 50" "pendingRequests s = []" "timers s = []"
      "isProcessingQueue s" "requestQueue s \<noteq> []"
proof -
  have "well_formed s"
    using inv_reachable [of es] assms by (simp add: relay_inv_def)
  then show ?thesis
    by (cases rule: wf_cases) (auto intro: that)
qed

subsection \<open>What single flight says about a history\<close>

lemma sf_flag_down: "\<not> fst (foldl (sf_step b) (False, out) h)"
proof (induction h arbitrary: out)
  case Nil
  show ?case by simp
next
  case (Cons a h)
  show ?case by (cases a) (simp_all add: Cons.IH)
qed

lemma sf_out_keeps:
  assumes "i \<in> set out" and "Received i \<notin> set ys" and "TimedOut i \<notin> set ys"
    and "b \<longrightarrow> Dropped i \<notin> set ys"
  shows "i \<in> set (snd (foldl (sf_step b) (ok, out) ys))"
  using assms
proof (induction ys arbitrary: ok out)
  case Nil
  then show ?case by simp
next
  case (Cons a ys)
  show ?case
  proof (cases a)
    case (Sent ws j nm ar)
    show ?thesis
      using Cons.prems by (simp add: Sent Cons.IH)
  next
    case (Received j)
    show ?thesis
      using Cons.prems by (simp add: Received Cons.IH)
  next
    case (TimedOut j)
    show ?thesis
      using Cons.prems by (simp add: TimedOut Cons.IH)
  next
    case (Dropped j)
    show ?thesis
      using Cons.prems Cons.IH [of "removeAll j out" ok] Cons.IH [of out ok]
      by (cases b) (auto simp add: Dropped)
  next
    case (SendFailed j)
    show ?thesis
      using Cons.prems by (simp add: SendFailed Cons.IH)
  next
    case (Resolved c r)
    show ?thesis
      using Cons.prems by (simp add: Resolved Cons.IH)
  qed
qed

lemma single_flight_meaning:
  assumes "single_flight b h" and "h = xs @ Sent ws i nm ar # ys @ Sent ws' j nm' ar' # zs"
  shows "Received i \<in> set ys \<or> TimedOut i \<in> set ys \<or> (b \<and> Dropped i \<in> set ys)"
proof (rule ccontr)
  assume n: "\<not> (Received i \<in> set ys \<or> TimedOut i \<in> set ys \<or> (b \<and> Dropped i \<in> set ys))"
  obtain ok out where x: "foldl (sf_step b) (True, []) xs = (ok, out)"
    by (cases "foldl (sf_step b) (True, []) xs")
  obtain ok' out' where y: "foldl (sf_step b) (ok \<and> out = [], out @ [i]) ys = (ok', out')"
    by (cases "foldl (sf_step b) (ok \<and> out = [], out @ [i]) ys")
  have "i \<in> set (snd (foldl (sf_step b) (ok \<and> out = [], out @ [i]) ys))"
    using n by (intro sf_out_keeps) simp_all
  then have "out' \<noteq> []"
    using y by auto
  then have "foldl (sf_step b) (True, []) h = foldl (sf_step b) (False, out' @ [j]) zs"
    by (simp add: assms(2) x y)
  then show False
    using assms(1) sf_flag_down [of b "out' @ [j]" zs] by (simp add: single_flight_def)
qed

subsection \<open>The claims about the relay\<close>

text \<open>
  C1, as the code has it.  In every reachable state the history is single-flight when the
  close handler counts as closing a call: between two sent calls the first one's result
  was received, its timer fired, or the close handler dropped it; and the pending table
  never holds more than one entry.  Draining: when the delay ends with a peer connected,
  the head of the queue is popped, the next id is allocated, the 30000 ms timer and the
  pending entry are installed and the call is sent; while a call is in flight a new
  \<open>callTool\<close> only joins the queue; and when the result arrives with the queue not
  empty, the caller is resolved and the loop waits 50 ms before the next request.
\<close>

theorem single_flight_draining:
  assumes "s = run es init"
  shows "single_flight True (history s)
    \<and> length (pendingRequests s) \<le> 1
    \<and> (peer s = Some ws \<and> awaiting s = AwaitDelay d \<and> requestQueue s = q # qs \<longrightarrow>
          step (DelayElapsed None) s =
            s\<lparr> requestQueue := qs, requestId := Suc (requestId s),
               timers := [(Suc (requestId s), 30000)],
               pendingRequests := [(Suc (requestId s), Suc (requestId s))],
               awaiting := AwaitResult (Suc (requestId s)) q,
               history := history s @ [Sent ws (Suc (requestId s)) (name q) (args q)] \<rparr>)
    \<and> (awaiting s = AwaitResult i q \<longrightarrow>
          step (CallTool nm ar fail) s =
            s\<lparr> requestQueue := requestQueue s @ [\<lparr> name = nm, args = ar, resolve = callers s \<rparr>],
               callers := Suc (callers s) \<rparr>)
    \<and> (awaiting s = AwaitResult i q \<and> requestQueue s \<noteq> [] \<longrightarrow>
          awaiting (step (ToolResult i r) s) = AwaitDelay 50
          \<and> history (step (ToolResult i r) s) = history s @ [Received i, Resolved (resolve q) r])
    \<and> (history s = xs @ Sent w1 i1 n1 a1 # ys @ Sent w2 i2 n2 a2 # zs \<longrightarrow>
          Received i1 \<in> set ys \<or> TimedOut i1 \<in> set ys \<or> Dropped i1 \<in> set ys)"
proof -
  have i: "relay_inv s"
    using inv_reachable [of es] assms by simp
  have 1: "single_flight True (history s)"
    using i by (simp add: relay_inv_def hist_ok_def single_flight_def)
  have 2: "length (pendingRequests s) \<le> 1"
    using assms by (cases rule: reachable_cases) simp_all
  have 3: "peer s = Some ws \<and> awaiting s = AwaitDelay d \<and> requestQueue s = q # qs \<longrightarrow>
          step (DelayElapsed None) s =
            s\<lparr> requestQueue := qs, requestId := Suc (requestId s),
               timers := [(Suc (requestId s), 30000)],
               pendingRequests := [(Suc (requestId s), Suc (requestId s))],
               awaiting := AwaitResult (Suc (requestId s)) q,
               history := history s @ [Sent ws (Suc (requestId s)) (name q) (args q)] \<rparr>"
    using assms
  proof (cases rule: reachable_cases)
    case delay
    show ?thesis
    proof (intro impI, elim conjE)
      assume a: "peer s = Some ws" "awaiting s = AwaitDelay d" "requestQueue s = q # qs"
      show "step (DelayElapsed None) s =
            s\<lparr> requestQueue := qs, requestId := Suc (requestId s),
               timers := [(Suc (requestId s), 30000)],
               pendingRequests := [(Suc (requestId s), Suc (requestId s))],
               awaiting := AwaitResult (Suc (requestId s)) q,
               history := history s @ [Sent ws (Suc (requestId s)) (name q) (args q)] \<rparr>"
        using a delay(2,3)
        by (simp add: onDelay_def whileLoop_peer dispatch_sent)
    qed
  qed simp_all
  have 4: "awaiting s = AwaitResult i q \<longrightarrow>
          step (CallTool nm ar fail) s =
            s\<lparr> requestQueue := requestQueue s @ [\<lparr> name = nm, args = ar, resolve = callers s \<rparr>],
               callers := Suc (callers s) \<rparr>"
    using assms by (cases rule: reachable_cases) (simp_all add: callTool_def processQueue_def)
  have 5: "awaiting s = AwaitResult i q \<and> requestQueue s \<noteq> [] \<longrightarrow>
          awaiting (step (ToolResult i r) s) = AwaitDelay 50
          \<and> history (step (ToolResult i r) s) = history s @ [Received i, Resolved (resolve q) r]"
    using assms
  proof (cases rule: reachable_cases)
    case (flight j p)
    show ?thesis
    proof (intro impI, elim conjE)
      assume a: "awaiting s = AwaitResult i q" "requestQueue s \<noteq> []"
      then have e: "j = i" "p = q"
        using flight(1) by simp_all
      show "awaiting (step (ToolResult i r) s) = AwaitDelay 50
          \<and> history (step (ToolResult i r) s) = history s @ [Received i, Resolved (resolve q) r]"
        using a(2) by (simp add: onToolResult_ended [OF flight(1,2,3) [unfolded e]])
    qed
  qed simp_all
  have 6: "history s = xs @ Sent w1 i1 n1 a1 # ys @ Sent w2 i2 n2 a2 # zs \<longrightarrow>
          Received i1 \<in> set ys \<or> TimedOut i1 \<in> set ys \<or> Dropped i1 \<in> set ys"
    using single_flight_meaning [OF 1, of xs w1 i1 n1 a1 ys w2 i2 n2 a2 zs] by simp
  show ?thesis
    by (intro conjI 1 2 3 4 5 6)
qed

text \<open>
  C2.  After any sequence of events, every caller created so far is either waiting (in
  the queue or in flight) exactly once and not yet resolved, or resolved exactly once and
  no longer waiting; no caller is resolved twice.  And none waits for ever: from any
  reachable state, the timers alone (with no peer reply at all) resolve every caller
  exactly once, within twice the length of the queue plus one timer events.
\<close>

theorem every_caller_resolved_once:
  assumes "s = run es init"
  shows "length (answers c (history s)) + count_list (waiting s) c = (if c < callers s then 1 else 0)
    \<and> length (answers c (history s)) \<le> 1
    \<and> (2 * length (requestQueue s) + 1 \<le> n \<longrightarrow>
          waiting (fire_timers n s) = []
          \<and> callers (fire_timers n s) = callers s
          \<and> length (answers c (history (fire_timers n s))) = (if c < callers s then 1 else 0))"
proof -
  have i: "relay_inv s"
    using inv_reachable [of es] assms by simp
  then have t: "ticket s c = (if c < callers s then 1 else 0)"
    by (simp add: relay_inv_def tickets_ok_ticket)
  have 1: "length (answers c (history s)) + count_list (waiting s) c = (if c < callers s then 1 else 0)"
    using t by (simp add: ticket_def)
  then have 2: "length (answers c (history s)) \<le> 1"
    by (simp split: if_splits)
  have 3: "2 * length (requestQueue s) + 1 \<le> n \<longrightarrow>
          waiting (fire_timers n s) = []
          \<and> callers (fire_timers n s) = callers s
          \<and> length (answers c (history (fire_timers n s))) = (if c < callers s then 1 else 0)"
  proof
    assume n: "2 * length (requestQueue s) + 1 \<le> n"
    have "fuel s \<le> n"
      using n by (simp add: fuel_def split: loop.splits)
    then have f: "awaiting (fire_timers n s) = Idle" "relay_inv (fire_timers n s)"
        "callers (fire_timers n s) = callers s"
      using fire_timers_idle [OF i, of n] by simp_all
    have w: "waiting (fire_timers n s) = []"
      using f(1,2) by (simp add: relay_inv_def well_formed_def waiting_def in_flight_def)
    have "ticket (fire_timers n s) c = (if c < callers s then 1 else 0)"
      using f(2,3) by (simp add: relay_inv_def tickets_ok_ticket)
    then show "waiting (fire_timers n s) = []
          \<and> callers (fire_timers n s) = callers s
          \<and> length (answers c (history (fire_timers n s))) = (if c < callers s then 1 else 0)"
      using w f(3) by (simp add: ticket_def)
  qed
  show ?thesis
    using 1 2 3 by blast
qed

text \<open>
  C3, as the code has it.  When the socket that is \<open>chromeClient\<close> closes, the pending table
  and the timers become empty, \<open>chromeClient\<close> is unset, and the caller of every pending
  call (there is at most one) is resolved with \<open>Connection closed\<close>; the queue of requests
  not yet sent is left as it is.
\<close>

theorem close_resolves_pending:
  assumes "s = run es init" and "chromeClient s = Some ws"
  shows "pendingRequests (step (Close ws) s) = []
    \<and> timers (step (Close ws) s) = []
    \<and> chromeClient (step (Close ws) s) = None
    \<and> requestQueue (step (Close ws) s) = requestQueue s
    \<and> (case awaiting s of
          AwaitResult i q \<Rightarrow>
            pendingRequests s = [(i, i)]
            \<and> history (step (Close ws) s) =
                history s @ [Dropped i, Resolved (resolve q) (ErrorResult ''Connection closed'')]
        | _ \<Rightarrow> pendingRequests s = [] \<and> history (step (Close ws) s) = history s)"
  using assms(1)
proof (cases rule: reachable_cases)
  case idle
  then show ?thesis
    using assms(2) by (simp add: onClose_idle)
next
  case (flight i q)
  show ?thesis
    using flight(1,2) by (simp add: onClose_ended [OF flight(1,2,3) assms(2)])
next
  case delay
  then show ?thesis
    using assms(2) by (simp add: onClose_idle)
qed


lemma answered_state:
  "run (two_calls @ [ToolResult 1 (FromPeer ''ok'')]) init =
     \<lparr> chromeClient = Some 1, openSockets = [1], pendingRequests = [], requestId = 1,
       requestQueue = [request_b], isProcessingQueue = True,
       timers = [], awaiting = AwaitDelay 50, callers = 2,
       history = [Sent 1 1 ''a'' ''{}'', Received 1, Resolved 0 (FromPeer ''ok'')] \<rparr>"
  by (simp add: two_calls_def relay_defs request_b_def)

theorem single_flight_draining_witness:
  "single_flight True (history (run (two_calls @ [ToolResult 1 (FromPeer ''ok''), DelayElapsed None]) init))
   \<and> awaiting (step (ToolResult 1 (FromPeer ''ok'')) (run two_calls init)) = AwaitDelay 50
   \<and> history (step (ToolResult 1 (FromPeer ''ok'')) (run two_calls init))
       = [Sent 1 1 ''a'' ''{}'', Received 1, Resolved 0 (FromPeer ''ok'')]
   \<and> step (DelayElapsed None) (run (two_calls @ [ToolResult 1 (FromPeer ''ok'')]) init)
       = \<lparr> chromeClient = Some 1, openSockets = [1], pendingRequests = [(2, 2)], requestId = 2,
           requestQueue = [], isProcessingQueue = True, timers = [(2, 30000)],
           awaiting = AwaitResult 2 request_b, callers = 2,
           history = [Sent 1 1 ''a'' ''{}'', Received 1, Resolved 0 (FromPeer ''ok''), Sent 1 2 ''b'' ''{}''] \<rparr>"
proof -
  let ?s1 = "run two_calls init"
  let ?s2 = "run (two_calls @ [ToolResult 1 (FromPeer ''ok'')]) init"
  let ?s3 = "run (two_calls @ [ToolResult 1 (FromPeer ''ok''), DelayElapsed None]) init"
  note t1 = single_flight_draining [where s = ?s1 and es = two_calls and i = 1 and q = request_a
      and r = "FromPeer ''ok''", OF refl]
  note t2 = single_flight_draining [where s = ?s2 and es = "two_calls @ [ToolResult 1 (FromPeer ''ok'')]"
      and ws = 1 and d = 50 and q = request_b and qs = "[]", OF refl]
  note t3 = single_flight_draining [where s = ?s3
      and es = "two_calls @ [ToolResult 1 (FromPeer ''ok''), DelayElapsed None]", OF refl]
  have a: "awaiting ?s1 = AwaitResult 1 request_a" "requestQueue ?s1 \<noteq> []" "history ?s1 = [Sent 1 1 ''a'' ''{}'']"
    unfolding two_calls_state by (simp_all add: request_a_def)
  have b: "peer ?s2 = Some 1" "awaiting ?s2 = AwaitDelay 50" "requestQueue ?s2 = request_b # []"
    unfolding answered_state peer_def by simp_all
  have 1: "single_flight True (history ?s3)"
    using t3 by (rule conjunct1)
  have 2: "awaiting (step (ToolResult 1 (FromPeer ''ok'')) ?s1) = AwaitDelay 50
      \<and> history (step (ToolResult 1 (FromPeer ''ok'')) ?s1) = [Sent 1 1 ''a'' ''{}'', Received 1, Resolved 0 (FromPeer ''ok'')]"
    using t1 a by (simp add: request_a_def)
  have 3: "step (DelayElapsed None) ?s2 =
      ?s2\<lparr> requestQueue := [], requestId := Suc (requestId ?s2),
               timers := [(Suc (requestId ?s2), 30000)],
               pendingRequests := [(Suc (requestId ?s2), Suc (requestId ?s2))],
               awaiting := AwaitResult (Suc (requestId ?s2)) request_b,
               history := history ?s2 @ [Sent 1 (Suc (requestId ?s2)) (name request_b) (args request_b)] \<rparr>"
    using t2 b by blast
  have 4: "step (DelayElapsed None) ?s2
       = \<lparr> chromeClient = Some 1, openSockets = [1], pendingRequests = [(2, 2)], requestId = 2,
           requestQueue = [], isProcessingQueue = True, timers = [(2, 30000)],
           awaiting = AwaitResult 2 request_b, callers = 2,
           history = [Sent 1 1 ''a'' ''{}'', Received 1, Resolved 0 (FromPeer ''ok''), Sent 1 2 ''b'' ''{}''] \<rparr>"
    unfolding 3 unfolding answered_state by (simp add: request_b_def)
  show ?thesis
    using 1 2 4 by simp
qed

text \<open>
  C1 as stated fails: after the peer closes, the call in flight is resolved by the close
  handler, and when a peer registers again before the delay ends the next call is sent,
  although no result was received and no timer fired for the first.
\<close>

theorem second_call_after_close:
  "history (run reconnect init) =
     [Sent 1 1 ''a'' ''{}'', Dropped 1, Resolved 0 (ErrorResult ''Connection closed''),
      Sent 2 2 ''b'' ''{}'']
   \<and> \<not> single_flight False (history (run reconnect init))"
proof -
  have h: "history (run reconnect init) =
     [Sent 1 1 ''a'' ''{}'', Dropped 1, Resolved 0 (ErrorResult ''Connection closed''),
      Sent 2 2 ''b'' ''{}'']"
    by (simp add: reconnect_def two_calls_def relay_defs)
  show ?thesis
    unfolding h by (simp add: single_flight_def)
qed

text \<open>
  C3 as stated fails: a request still in the queue when the peer closes stays in the queue.
\<close>

theorem queue_survives_close:
  "chromeClient (run two_calls init) = Some 1
   \<and> requestQueue (run two_calls init) = [request_b]
   \<and> requestQueue (step (Close 1) (run two_calls init)) = [request_b]"
  by (simp add: two_calls_def relay_defs request_b_def)

theorem every_caller_resolved_once_witness:
  "answers 0 (history (run two_calls init)) = []
   \<and> waiting (run two_calls init) = [0, 1]
   \<and> waiting (fire_timers 3 (run two_calls init)) = []
   \<and> length (answers 0 (history (fire_timers 3 (run two_calls init)))) = 1
   \<and> length (answers 1 (history (fire_timers 3 (run two_calls init)))) = 1"
proof -
  let ?s = "run two_calls init"
  note t0 = every_caller_resolved_once [where s = ?s and es = two_calls and c = 0 and n = 3, OF refl]
  note t1 = every_caller_resolved_once [where s = ?s and es = two_calls and c = 1 and n = 3, OF refl]
  have q: "2 * length (requestQueue ?s) + 1 \<le> 3" "callers ?s = 2"
    unfolding two_calls_state by simp_all
  have w: "waiting ?s = [0, 1]"
    unfolding two_calls_state by (simp add: waiting_def in_flight_def)
  have a: "answers 0 (history ?s) = []"
    using t0 w q(2) by simp
  show ?thesis
    using t0 t1 q w a by simp
qed

theorem close_resolves_pending_witness:
  "chromeClient (run two_calls init) = Some 1
   \<and> pendingRequests (run two_calls init) = [(1, 1)]
   \<and> pendingRequests (step (Close 1) (run two_calls init)) = []
   \<and> requestQueue (step (Close 1) (run two_calls init)) = [request_b]
   \<and> history (step (Close 1) (run two_calls init)) =
       [Sent 1 1 ''a'' ''{}'', Dropped 1, Resolved 0 (ErrorResult ''Connection closed'')]"
proof -
  let ?s = "run two_calls init"
  have c: "chromeClient ?s = Some 1"
    unfolding two_calls_state by simp
  note t = close_resolves_pending [where s = ?s and es = two_calls and ws = 1, OF refl c]
  have a: "awaiting ?s = AwaitResult 1 request_a" "requestQueue ?s = [request_b]"
      "history ?s = [Sent 1 1 ''a'' ''{}'']" "pendingRequests ?s = [(1, 1)]"
    unfolding two_calls_state by (simp_all add: request_a_def request_b_def)
  show ?thesis
    using t c a by (simp add: request_a_def)
qed


end
